theory Spec2Isabelle
  imports Complex_Main "HOL-Library.Log_Nat"
begin

unbundle bit_operations_syntax

section \<open>Net: direction and rotation bit algebra (net.c, lines 25-52)\<close>

text \<open>
  The macros of net.c work on \<^verbatim>\<open>int\<close> (an \<^verbatim>\<open>unsigned char\<close> tile is promoted before
  \<^verbatim>\<open>&\<close>, \<^verbatim>\<open>|\<close> and the shifts), so they are modelled on \<^typ>\<open>int\<close>. Every value the code
  stores into a tile or barrier cell is between 0 and 255 (the rotations return at
  most 15, \<^verbatim>\<open>|=\<close> and \<^verbatim>\<open>^=\<close> of such values stay below 256, the largest corner flag
  is \<^verbatim>\<open>8 << 4\<close>), so no store truncates and the arrays are lists of \<^typ>\<open>int\<close>.
\<close>

definition R :: int where "R = 0x01"
definition U :: int where "U = 0x02"
definition L :: int where "L = 0x04"
definition D :: int where "D = 0x08"
definition LOCKED :: int where "LOCKED = 0x10"
definition ACTIVE :: int where "ACTIVE = 0x20"

text \<open>\<^verbatim>\<open>#define A(x) ( (((x) & 0x07) << 1) | (((x) & 0x08) >> 3) )\<close>\<close>

definition A :: "int \<Rightarrow> int" where
  "A v = (push_bit 1 (v AND 0x07)) OR (drop_bit 3 (v AND 0x08))"

text \<open>\<^verbatim>\<open>#define C(x) ( (((x) & 0x0E) >> 1) | (((x) & 0x01) << 3) )\<close>\<close>

definition C :: "int \<Rightarrow> int" where
  "C v = (drop_bit 1 (v AND 0x0E)) OR (push_bit 3 (v AND 0x01))"

text \<open>\<^verbatim>\<open>#define F(x) ( (((x) & 0x0C) >> 2) | (((x) & 0x03) << 2) )\<close>\<close>

definition F :: "int \<Rightarrow> int" where
  "F v = (drop_bit 2 (v AND 0x0C)) OR (push_bit 2 (v AND 0x03))"

text \<open>\<^verbatim>\<open>ROT(x, n)\<close>: \<^verbatim>\<open>n & 3\<close> selects the identity, \<^verbatim>\<open>A\<close>, \<^verbatim>\<open>F\<close> or \<^verbatim>\<open>C\<close>.\<close>

definition ROT :: "int \<Rightarrow> int \<Rightarrow> int" where
  "ROT v n = (if n AND 3 = 0 then v
              else if n AND 3 = 1 then A v
              else if n AND 3 = 2 then F v
              else C v)"

definition X :: "int \<Rightarrow> int" where
  "X v = (if v = R then 1 else if v = L then - 1 else 0)"

definition Y :: "int \<Rightarrow> int" where
  "Y v = (if v = D then 1 else if v = U then - 1 else 0)"

text \<open>\<^verbatim>\<open>COUNT(x)\<close>: the number of direction bits set.\<close>

definition COUNT :: "int \<Rightarrow> int" where
  "COUNT v = drop_bit 3 (v AND 0x08) + drop_bit 2 (v AND 0x04)
             + drop_bit 1 (v AND 0x02) + (v AND 0x01)"

definition TILE_SIZE :: int where "TILE_SIZE = 32"
definition TILE_BORDER :: int where "TILE_BORDER = 1"
definition WINDOW_OFFSET :: int where "WINDOW_OFFSET = 16"

text \<open>
  The loops \<^verbatim>\<open>for (d = 1; d < 0x10; d <<= 1)\<close> visit the four directions in this
  order.
\<close>

definition dirs :: "int list" where
  "dirs = [0x01, 0x02, 0x04, 0x08]"

section \<open>Net: parameters, state and grid arithmetic (net.c, lines 72-122)\<close>

text \<open>
  \<^verbatim>\<open>barrier_probability\<close> is a \<^verbatim>\<open>float\<close>. Every finite float is a rational number:
  the field holds the value of the float, and the arithmetic of line 467 rounds as
  single precision does (\<open>float_round\<close> below).
\<close>

record game_params =
  pwidth :: int
  pheight :: int
  pwrapping :: bool
  barrier_probability :: rat

text \<open>
  The dimensions and the centre of a state are never negative (\<^verbatim>\<open>new_game\<close> asserts
  positive dimensions before it builds one), so they are natural numbers here.
  An index \<^verbatim>\<open>y * width + x\<close> outside an array is undefined behaviour in C; the
  theorems below are about states whose indices are in range.
\<close>

record game_state =
  width :: nat
  height :: nat
  cx :: nat
  cy :: nat
  wrapping :: bool
  completed :: bool
  last_rotate_dir :: int
  tiles :: "int list"
  barriers :: "int list"

datatype error = AssertionFailed | NullDereference

text \<open>
  \<^verbatim>\<open>OFFSET(x2,y2,x1,y1,dir,state)\<close>. The dividend \<^verbatim>\<open>x1 + width + X(dir)\<close> is not
  negative for a positive width, where C's \<^verbatim>\<open>%\<close> and \<open>mod\<close> agree.
\<close>

definition OFFSET :: "nat \<Rightarrow> nat \<Rightarrow> int \<Rightarrow> game_state \<Rightarrow> nat \<times> nat" where
  "OFFSET x1 y1 dir state =
     (nat ((int x1 + int (width state) + X dir) mod int (width state)),
      nat ((int y1 + int (height state) + Y dir) mod int (height state)))"

definition index :: "game_state \<Rightarrow> nat \<Rightarrow> nat \<Rightarrow> nat" where
  "index state x y = y * width state + x"

definition tile :: "game_state \<Rightarrow> nat \<Rightarrow> nat \<Rightarrow> int" where
  "tile state x y = tiles state ! index state x y"

definition barrier :: "game_state \<Rightarrow> nat \<Rightarrow> nat \<Rightarrow> int" where
  "barrier state x y = barriers state ! index state x y"

text \<open>\<^verbatim>\<open>tile(state, x, y) |= v\<close> and \<^verbatim>\<open>barrier(state, x, y) |= v\<close>.\<close>

definition tile_or :: "game_state \<Rightarrow> nat \<Rightarrow> nat \<Rightarrow> int \<Rightarrow> game_state" where
  "tile_or state x y v =
     state\<lparr>tiles := (tiles state)[index state x y := tile state x y OR v]\<rparr>"

definition barrier_or :: "game_state \<Rightarrow> nat \<Rightarrow> nat \<Rightarrow> int \<Rightarrow> game_state" where
  "barrier_or state x y v =
     state\<lparr>barriers := (barriers state)[index state x y := barrier state x y OR v]\<rparr>"

type_synonym xyd = "nat \<times> nat \<times> int"

definition new_xyd :: "nat \<Rightarrow> nat \<Rightarrow> int \<Rightarrow> xyd" where
  "new_xyd x y direction = (x, y, direction)"

fun xyd_cmp :: "xyd \<Rightarrow> xyd \<Rightarrow> int" where
  "xyd_cmp (ax, ay, ad) (bx, by, bd) =
     (if ax < bx then - 1
      else if ax > bx then 1
      else if ay < by then - 1
      else if ay > by then 1
      else if ad < bd then - 1
      else if ad > bd then 1
      else 0)"

section \<open>The collaborators of net.c: ordered set and random source\<close>

text \<open>
  Modelled from the spec: tree234.c is not among the sources. The spec describes the
  container as an ordered search tree used as a set with the operations insert, remove
  by key and pick-and-remove by position. A tree is modelled by the list of its
  elements in the order of its comparison function (here always \<^const>\<open>xyd_cmp\<close>):
  \<^verbatim>\<open>add234\<close> keeps an element that compares equal and inserts otherwise,
  \<^verbatim>\<open>find234\<close> returns the element that compares equal, \<^verbatim>\<open>del234\<close> removes it,
  \<^verbatim>\<open>delpos234\<close> removes the element at a position and returns \<^verbatim>\<open>NULL\<close> (\<open>None\<close>)
  for a position outside the tree.
\<close>

definition count234 :: "xyd list \<Rightarrow> nat" where
  "count234 t = length t"

fun find234 :: "xyd list \<Rightarrow> xyd \<Rightarrow> xyd option" where
  "find234 [] e = None"
| "find234 (a # t) e = (if xyd_cmp e a = 0 then Some a else find234 t e)"

fun ins234 :: "xyd list \<Rightarrow> xyd \<Rightarrow> xyd list" where
  "ins234 [] e = [e]"
| "ins234 (a # t) e = (if xyd_cmp e a < 0 then e # a # t else a # ins234 t e)"

definition add234 :: "xyd list \<Rightarrow> xyd \<Rightarrow> xyd list" where
  "add234 t e = (case find234 t e of Some a \<Rightarrow> t | None \<Rightarrow> ins234 t e)"

fun del234 :: "xyd list \<Rightarrow> xyd \<Rightarrow> xyd list" where
  "del234 [] e = []"
| "del234 (a # t) e = (if xyd_cmp e a = 0 then t else a # del234 t e)"

definition delpos234 :: "xyd list \<Rightarrow> nat \<Rightarrow> xyd option \<times> xyd list" where
  "delpos234 t i =
     (if i < length t then (Some (t ! i), take i t @ drop (Suc i) t) else (None, t))"

text \<open>
  The idiom \<^verbatim>\<open>xydp = find234(t, &key, NULL); if (xydp) { del234(t, xydp); }\<close>.
\<close>

definition find_del234 :: "xyd list \<Rightarrow> xyd \<Rightarrow> xyd list" where
  "find_del234 t key = (case find234 t key of None \<Rightarrow> t | Some xydp \<Rightarrow> del234 t xydp)"

text \<open>
  Modelled from the spec: random.c is not among the sources. The spec asks of the
  random source only that it is deterministic and that a draw of size \<open>n\<close> is uniform
  on \<open>0 .. n - 1\<close>. The generator takes the source as a parameter: a function from a
  random state and a size to the number drawn and the next random state.
\<close>

type_synonym 'r random_upto = "'r \<Rightarrow> nat \<Rightarrow> nat \<times> 'r"

definition in_range :: "'r random_upto \<Rightarrow> bool" where
  "in_range rnd = (\<forall>rs n. 0 < n \<longrightarrow> fst (rnd rs n) < n)"

text \<open>A concrete source for the examples: the state is the list of numbers still to come.\<close>

definition list_upto :: "nat list random_upto" where
  "list_upto rs n = (case rs of [] \<Rightarrow> (0, []) | r # rs' \<Rightarrow> (r mod n, rs'))"

section \<open>Net: the generator (net.c, new\_game, lines 211-560)\<close>

text \<open>Lines 224-235: the blank state.\<close>

definition blank_state :: "game_params \<Rightarrow> game_state" where
  "blank_state params =
     (let w = nat (pwidth params); h = nat (pheight params) in
      \<lparr>width = w, height = h, cx = w div 2, cy = h div 2,
       wrapping = pwrapping params, completed = False, last_rotate_dir = 1,
       tiles = replicate (w * h) 0, barriers = replicate (w * h) 0\<rparr>)"

text \<open>Lines 240-249: the border barriers of a non-wrapping game.\<close>

definition border_barriers :: "game_state \<Rightarrow> game_state" where
  "border_barriers state =
     (if \<not> wrapping state then
        (let s1 = fold (\<lambda>x s. barrier_or (barrier_or s x 0 U) x (height s - 1) D)
                       [0..<width state] state
         in fold (\<lambda>y s. barrier_or (barrier_or s 0 y L) (width s - 1) y R)
                 [0..<height state] s1)
      else state)"

text \<open>Lines 300-307: the possibilities leaving the centre.\<close>

definition initial_possibilities :: "game_state \<Rightarrow> xyd list" where
  "initial_possibilities state =
     (let p0 = [];
          p1 = (if cx state + 1 < width state
                then add234 p0 (new_xyd (cx state) (cy state) R) else p0);
          p2 = (if int (cy state) - 1 \<ge> 0
                then add234 p1 (new_xyd (cx state) (cy state) U) else p1);
          p3 = (if int (cx state) - 1 \<ge> 0
                then add234 p2 (new_xyd (cx state) (cy state) L) else p2);
          p4 = (if cy state + 1 < height state
                then add234 p3 (new_xyd (cx state) (cy state) D) else p3)
      in p4)"

text \<open>
  Lines 366-387: remove every possibility pointing at the tile just moved into.
\<close>

definition remove_pointing :: "game_state \<Rightarrow> nat \<Rightarrow> nat \<Rightarrow> xyd list \<Rightarrow> xyd list" where
  "remove_pointing state x2 y2 possibilities =
     fold (\<lambda>d ps. let (x3, y3) = OFFSET x2 y2 d state; d3 = F d
                   in find_del234 ps (x3, y3, d3))
          dirs possibilities"

text \<open>Lines 393-420: add the possibilities leaving the tile just moved into.\<close>

definition add_frontier ::
  "game_state \<Rightarrow> nat \<Rightarrow> nat \<Rightarrow> int \<Rightarrow> xyd list \<Rightarrow> xyd list" where
  "add_frontier state x2 y2 d2 possibilities =
     fold (\<lambda>d ps.
             if d = d2 then ps
             else if \<not> wrapping state \<and>
                     ((d = U \<and> y2 = 0) \<or> (d = D \<and> int y2 = int (height state) - 1) \<or>
                      (d = L \<and> x2 = 0) \<or> (d = R \<and> int x2 = int (width state) - 1))
                  then ps
             else (let (x3, y3) = OFFSET x2 y2 d state
                   in if tile state x3 y3 \<noteq> 0 then ps
                      else add234 ps (new_xyd x2 y2 d)))
          dirs possibilities"

text \<open>
  Lines 317-420: one turn of the loop. The pick is dereferenced without a test, and
  the target tile is asserted to be unused.
\<close>

definition extend_grid ::
  "'r random_upto \<Rightarrow> game_state \<Rightarrow> xyd list \<Rightarrow> 'r
   \<Rightarrow> error + (game_state \<times> xyd list \<times> 'r)" where
  "extend_grid rnd state possibilities rs =
     (let (i, rs1) = rnd rs (count234 possibilities) in
      case delpos234 possibilities i of
        (None, _) \<Rightarrow> Inl NullDereference
      | (Some (x1, y1, d1), ps1) \<Rightarrow>
          (let (x2, y2) = OFFSET x1 y1 d1 state;
               d2 = F d1;
               s1 = tile_or state x1 y1 d1
           in if tile s1 x2 y2 \<noteq> 0 then Inl AssertionFailed
              else
                (let s2 = tile_or s1 x2 y2 d2;
                     ps2 = (if COUNT (tile s2 x1 y1) = 3
                            then find_del234 ps1 (x1, y1, 0x0F XOR tile s2 x1 y1)
                            else ps1);
                     ps3 = remove_pointing s2 x2 y2 ps2;
                     ps4 = add_frontier s2 x2 y2 d2 ps3
                 in Inr (s2, ps4, rs1))))"

text \<open>
  Lines 309-421: \<^verbatim>\<open>while (count234(possibilities) > 0)\<close>. \<open>None\<close> stands for a loop that
  does not end.
\<close>

partial_function (option) build_grid ::
  "'r random_upto \<Rightarrow> game_state \<Rightarrow> xyd list \<Rightarrow> 'r
   \<Rightarrow> (error + (game_state \<times> xyd list \<times> 'r)) option" where
  "build_grid rnd state possibilities rs =
     (if count234 possibilities > 0 then
        (case extend_grid rnd state possibilities rs of
           Inl e \<Rightarrow> Some (Inl e)
         | Inr (state', possibilities', rs') \<Rightarrow> build_grid rnd state' possibilities' rs')
      else Some (Inr (state, possibilities, rs)))"

declare build_grid.simps [code]

text \<open>The cells in the order of the loops \<^verbatim>\<open>for (y ...) for (x ...)\<close>, as pairs \<open>(x, y)\<close>.\<close>

definition cells :: "game_state \<Rightarrow> (nat \<times> nat) list" where
  "cells state = concat (map (\<lambda>y. map (\<lambda>x. (x, y)) [0..<width state]) [0..<height state])"

text \<open>Lines 429-440: the possible barrier locations.\<close>

definition barrier_candidates :: "game_state \<Rightarrow> xyd list" where
  "barrier_candidates state =
     fold (\<lambda>(x, y) bs.
             let b1 = (if tile state x y AND R = 0 \<and>
                          (wrapping state \<or> int x < int (width state) - 1)
                       then add234 bs (new_xyd x y R) else bs);
                 b2 = (if tile state x y AND D = 0 \<and>
                          (wrapping state \<or> int y < int (height state) - 1)
                       then add234 b1 (new_xyd x y D) else b1)
             in b2)
          (cells state) []"

text \<open>Lines 445-451: the shuffle.\<close>

definition shuffle :: "'r random_upto \<Rightarrow> game_state \<Rightarrow> 'r \<Rightarrow> game_state \<times> 'r" where
  "shuffle rnd state rs =
     fold (\<lambda>(x, y) (s, r).
             let orig = tile s x y;
                 (rot, r') = rnd r 4
             in (s\<lparr>tiles := (tiles s)[index s x y := ROT orig (int rot)]\<rparr>, r'))
          (cells state) (state, rs)"

text \<open>
  Single-precision arithmetic (IEEE 754 binary32, round to nearest, ties to even).
  \<open>round_even\<close> is the integer nearest to a rational, the even one of two equally near.
  \<open>binade x\<close> is the exponent \<open>e\<close> with \<open>2 ^ e \<le> x < 2 ^ (e + 1)\<close>, and -126 for the
  smaller \<open>x\<close> (the subnormal numbers share the spacing of the lowest binade); it is
  computed from the bit lengths of numerator and denominator. \<open>float_round x\<close> is the
  float nearest to \<open>x\<close>: the multiple of \<open>2 ^ (e - 23)\<close> nearest to it, which has 24
  significant bits. A result beyond the largest float is infinite in C, and its
  conversion to \<^verbatim>\<open>int\<close> undefined; the model rounds on with larger exponents there.
\<close>

definition round_even :: "rat \<Rightarrow> int" where
  "round_even r =
     (let f = \<lfloor>r\<rfloor>; d = r - of_int f
      in if d < 1 / 2 then f else if 1 / 2 < d then f + 1 else if even f then f else f + 1)"

definition binade :: "rat \<Rightarrow> int" where
  "binade x =
     (case quotient_of x of (a, b) \<Rightarrow>
        let e = bitlen a - bitlen b
        in max (if 2 powi e \<le> x then e else e - 1) (- 126))"

definition float_round :: "rat \<Rightarrow> rat" where
  "float_round x =
     (let u = 2 powi (binade \<bar>x\<bar> - 23) in of_int (round_even (x / u)) * u)"

text \<open>The product of two floats, and the conversion of an \<^verbatim>\<open>int\<close> to \<^verbatim>\<open>float\<close>.\<close>

definition float_mul :: "rat \<Rightarrow> rat \<Rightarrow> rat" where
  "float_mul a b = float_round (a * b)"

definition float_of_int :: "int \<Rightarrow> rat" where
  "float_of_int n = float_round (of_int n)"

text \<open>
  Line 467: \<^verbatim>\<open>(int)(params->barrier_probability * count234(barriers))\<close>. The count is
  converted to \<^verbatim>\<open>float\<close>, the product is a \<^verbatim>\<open>float\<close>, and the conversion to \<^verbatim>\<open>int\<close>
  truncates towards zero.
\<close>

definition to_int :: "rat \<Rightarrow> int" where
  "to_int q = (if q \<ge> 0 then \<lfloor>q\<rfloor> else - \<lfloor>- q\<rfloor>)"

definition barrier_count :: "game_params \<Rightarrow> xyd list \<Rightarrow> int" where
  "barrier_count params bs =
     to_int (float_mul (barrier_probability params) (float_of_int (int (count234 bs))))"

text \<open>
  Lines 470-495: \<^verbatim>\<open>while (nbarriers > 0)\<close>, by recursion on the counter. The pick is
  asserted not to be \<^verbatim>\<open>NULL\<close>.
\<close>

fun choose_barriers ::
  "'r random_upto \<Rightarrow> nat \<Rightarrow> game_state \<Rightarrow> xyd list \<Rightarrow> 'r
   \<Rightarrow> error + (game_state \<times> xyd list \<times> 'r)" where
  "choose_barriers rnd 0 state bs rs = Inr (state, bs, rs)"
| "choose_barriers rnd (Suc n) state bs rs =
     (let (i, rs1) = rnd rs (count234 bs) in
      case delpos234 bs i of
        (None, _) \<Rightarrow> Inl AssertionFailed
      | (Some (x1, y1, d1), bs1) \<Rightarrow>
          (let (x2, y2) = OFFSET x1 y1 d1 state;
               d2 = F d1;
               s1 = barrier_or state x1 y1 d1;
               s2 = barrier_or s1 x2 y2 d2
           in choose_barriers rnd n s2 bs1 rs1))"

text \<open>Lines 513-555: the corner flags, for one cell and one direction.\<close>

definition in_grid :: "game_state \<Rightarrow> int \<Rightarrow> int \<Rightarrow> bool" where
  "in_grid state x y = (x \<ge> 0 \<and> x < int (width state) \<and> y \<ge> 0 \<and> y < int (height state))"

definition corner_flags :: "nat \<Rightarrow> nat \<Rightarrow> int \<Rightarrow> game_state \<Rightarrow> game_state" where
  "corner_flags x y dir state =
     (let dir2 = A dir in
      if barrier state x y AND dir = 0 then state
      else
        (let c0 = (barrier state x y AND dir2 \<noteq> 0);
             x1 = int x + X dir; y1 = int y + Y dir;
             c1 = (c0 \<or> (in_grid state x1 y1 \<and>
                         barrier state (nat x1) (nat y1) AND dir2 \<noteq> 0));
             x2 = int x + X dir2; y2 = int y + Y dir2;
             corner = (c1 \<or> (in_grid state x2 y2 \<and>
                             barrier state (nat x2) (nat y2) AND dir \<noteq> 0))
         in if corner then
              (let s0 = barrier_or state x y (push_bit 4 dir);
                   s1 = (if in_grid s0 x1 y1
                         then barrier_or s0 (nat x1) (nat y1) (push_bit 4 (A dir)) else s0);
                   s2 = (if in_grid s1 x2 y2
                         then barrier_or s1 (nat x2) (nat y2) (push_bit 4 (C dir)) else s1);
                   x3 = int x + X dir + X dir2; y3 = int y + Y dir + Y dir2;
                   s3 = (if in_grid s2 x3 y3
                         then barrier_or s2 (nat x3) (nat y3) (push_bit 4 (F dir)) else s2)
               in s3)
            else state))"

definition barrier_corners :: "game_state \<Rightarrow> game_state" where
  "barrier_corners state =
     fold (\<lambda>(x, y) s. fold (corner_flags x y) dirs s) (cells state) state"

text \<open>
  \<^verbatim>\<open>new_game\<close>, with the random state in place of the seed it is initialised from.
  \<open>unshuffled_grid\<close> is the part up to line 424, the grid before the shuffle.
\<close>

definition unshuffled_grid ::
  "'r random_upto \<Rightarrow> game_params \<Rightarrow> 'r \<Rightarrow> (error + (game_state \<times> 'r)) option" where
  "unshuffled_grid rnd params rs =
     (if \<not> (pwidth params > 0 \<and> pheight params > 0) then Some (Inl AssertionFailed)
      else if \<not> (pwidth params > 1 \<or> pheight params > 1) then Some (Inl AssertionFailed)
      else
        (let state = border_barriers (blank_state params) in
         case build_grid rnd state (initial_possibilities state) rs of
           None \<Rightarrow> None
         | Some (Inl e) \<Rightarrow> Some (Inl e)
         | Some (Inr (s1, possibilities, rs1)) \<Rightarrow>
             if count234 possibilities \<noteq> 0 then Some (Inl AssertionFailed)
             else Some (Inr (s1, rs1))))"

definition new_game ::
  "'r random_upto \<Rightarrow> game_params \<Rightarrow> 'r \<Rightarrow> (error + game_state) option" where
  "new_game rnd params rs =
     (case unshuffled_grid rnd params rs of
        None \<Rightarrow> None
      | Some (Inl e) \<Rightarrow> Some (Inl e)
      | Some (Inr (s1, rs1)) \<Rightarrow>
          (let bs = barrier_candidates s1;
               (s2, rs2) = shuffle rnd s1 rs1;
               nbarriers = barrier_count params bs
           in if \<not> (nbarriers \<ge> 0 \<and> nbarriers \<le> int (count234 bs))
              then Some (Inl AssertionFailed)
              else
                (case choose_barriers rnd (nat nbarriers) s2 bs rs2 of
                   Inl e \<Rightarrow> Some (Inl e)
                 | Inr (s3, bs3, rs3) \<Rightarrow> Some (Inr (barrier_corners s3)))))"

section \<open>Net: the connectivity solver (net.c, compute\_active, lines 600-648)\<close>

text \<open>
  Lines 624-641: one direction of the scan around \<open>(x1, y1)\<close>; the neighbour is marked
  and queued when the four tests of line 634 pass.
\<close>

definition spread ::
  "game_state \<Rightarrow> nat \<Rightarrow> nat \<Rightarrow> int \<Rightarrow> int list \<times> xyd list \<Rightarrow> int list \<times> xyd list" where
  "spread state x1 y1 d1 = (\<lambda>(active, todo).
     let (x2, y2) = OFFSET x1 y1 d1 state;
         d2 = F d1
     in if tile state x1 y1 AND d1 \<noteq> 0 \<and>
           tile state x2 y2 AND d2 \<noteq> 0 \<and>
           \<not> (barrier state x1 y1 AND d1 \<noteq> 0) \<and>
           \<not> (active ! index state x2 y2 \<noteq> 0)
        then (active[index state x2 y2 := ACTIVE], add234 todo (new_xyd x2 y2 0))
        else (active, todo))"

text \<open>
  Lines 617-642: \<^verbatim>\<open>while ((xyd = delpos234(todo, 0)) != NULL)\<close>. \<open>None\<close> stands for a loop
  that does not end.
\<close>

partial_function (option) flood ::
  "game_state \<Rightarrow> int list \<Rightarrow> xyd list \<Rightarrow> (int list \<times> xyd list) option" where
  "flood state active todo =
     (case delpos234 todo 0 of
        (None, todo') \<Rightarrow> Some (active, todo')
      | (Some (x1, y1, d), todo') \<Rightarrow>
          (case fold (spread state x1 y1) dirs (active, todo') of
             (active', todo'') \<Rightarrow> flood state active' todo''))"

declare flood.simps [code]

definition compute_active :: "game_state \<Rightarrow> (error + int list) option" where
  "compute_active state =
     (let active0 = replicate (width state * height state) 0;
          active1 = active0[index state (cx state) (cy state) := ACTIVE];
          todo = add234 [] (new_xyd (cx state) (cy state) 0)
      in case flood state active1 todo of
           None \<Rightarrow> None
         | Some (active, todo') \<Rightarrow>
             if count234 todo' = 0 then Some (Inr active) else Some (Inl AssertionFailed))"

section \<open>Net: the move engine (net.c, make\_move, lines 653-741)\<close>

text \<open>
  Modelled from the spec: puzzles.h, which declares the button codes, is not among the
  sources. A button is one of the three mouse buttons or anything else.
\<close>

datatype button = LEFT_BUTTON | MIDDLE_BUTTON | RIGHT_BUTTON | OTHER_BUTTON

text \<open>\<^verbatim>\<open>dup_game\<close> copies every field and both arrays.\<close>

definition dup_game :: "game_state \<Rightarrow> game_state" where
  "dup_game state =
     \<lparr>width = width state, height = height state, cx = cx state, cy = cy state,
      wrapping = wrapping state, completed = completed state,
      last_rotate_dir = last_rotate_dir state,
      tiles = tiles state, barriers = barriers state\<rparr>"

definition set_tile :: "game_state \<Rightarrow> nat \<Rightarrow> nat \<Rightarrow> int \<Rightarrow> game_state" where
  "set_tile state x y v = state\<lparr>tiles := (tiles state)[index state x y := v]\<rparr>"

text \<open>Lines 726-731: is every cell of the grid marked?\<close>

definition all_active :: "game_state \<Rightarrow> int list \<Rightarrow> bool" where
  "all_active ret active =
     list_all (\<lambda>x1. list_all (\<lambda>y1. active ! index ret x1 y1 \<noteq> 0) [0..<height ret])
              [0..<width ret]"

text \<open>
  \<^verbatim>\<open>make_move\<close>. The result \<open>Inr None\<close> is the \<^verbatim>\<open>NULL\<close> the function returns for
  "no move"; \<open>Inr (Some ret)\<close> is the new state.
\<close>

definition make_move ::
  "game_state \<Rightarrow> int \<Rightarrow> int \<Rightarrow> button \<Rightarrow> (error + game_state option) option" where
  "make_move state x y button =
     (if button \<noteq> LEFT_BUTTON \<and> button \<noteq> MIDDLE_BUTTON \<and> button \<noteq> RIGHT_BUTTON
      then Some (Inr None)
      else
        (let x' = x - (WINDOW_OFFSET + TILE_BORDER);
             y' = y - (WINDOW_OFFSET + TILE_BORDER)
         in if x' < 0 \<or> y' < 0 then Some (Inr None)
            else
              (let tx = x' div TILE_SIZE;
                   ty = y' div TILE_SIZE
               in if tx \<ge> int (width state) \<or> ty \<ge> int (height state) then Some (Inr None)
                  else if tx mod TILE_SIZE \<ge> TILE_SIZE - TILE_BORDER \<or>
                          ty mod TILE_SIZE \<ge> TILE_SIZE - TILE_BORDER
                       then Some (Inr None)
                  else if button = MIDDLE_BUTTON then
                    (let ret = dup_game state
                     in Some (Inr (Some
                          (set_tile ret (nat tx) (nat ty)
                             (tile ret (nat tx) (nat ty) XOR LOCKED)))))
                  else if tile state (nat tx) (nat ty) AND LOCKED \<noteq> 0 then Some (Inr None)
                  else
                    (let ret = dup_game state;
                         orig = tile ret (nat tx) (nat ty);
                         ret1 = (if button = LEFT_BUTTON
                                 then (set_tile ret (nat tx) (nat ty) (A orig))
                                        \<lparr>last_rotate_dir := 1\<rparr>
                                 else (set_tile ret (nat tx) (nat ty) (C orig))
                                        \<lparr>last_rotate_dir := - 1\<rparr>)
                     in case compute_active ret1 of
                          None \<Rightarrow> None
                        | Some (Inl e) \<Rightarrow> Some (Inl e)
                        | Some (Inr active) \<Rightarrow>
                            Some (Inr (Some
                              (if all_active ret1 active
                               then ret1\<lparr>completed := True\<rparr> else ret1)))))))"

section \<open>Decanting: the puzzle description (decanting.c, lines 14-304)\<close>

definition MAX_LAYERS :: int where "MAX_LAYERS = 8"
definition MAX_COLOURS :: int where "MAX_COLOURS = 12"
definition MAX_TUBES :: int where "MAX_TUBES = 16"
definition MAX_DESC :: int where "MAX_DESC = MAX_TUBES * (MAX_LAYERS + 1)"

definition HEX :: string where
  "HEX = ''0123456789abcdef''"

record decanting_params =
  ncolours :: int
  ntubes :: int
  nlayers :: int
  hiddenlayers :: bool

text \<open>
  \<^verbatim>\<open>signed char tubes[MAX_TUBES][MAX_LAYERS]\<close> is a function from the two indices to
  the cell, written with function update; the loops below stay inside the array for
  parameters that \<^verbatim>\<open>validate_params\<close> accepts.
\<close>

record decanting_state =
  solved :: bool
  p :: decanting_params
  tubes :: "nat \<Rightarrow> nat \<Rightarrow> int"

datatype desc_error = OutOfBounds

definition validate_params :: "decanting_params \<Rightarrow> string option" where
  "validate_params params =
     (if ncolours params < 2 then Some ''Colours must be at least 2''
      else if nlayers params < 2 then Some ''Layers must be at least 2''
      else if ntubes params < 3 then Some ''Tubes must be at least 3''
      else if ncolours params > MAX_COLOURS then Some ''Too many colours''
      else if nlayers params > MAX_LAYERS then Some ''Too many layers''
      else if ntubes params > MAX_TUBES then Some ''Too many tubes''
      else if ntubes params \<le> ncolours params
           then Some ''There must be more tubes than colours''
      else None)"

text \<open>
  Lines 258-271, \<^verbatim>\<open>game_desc\<close>. The buffer is the list of characters written so far and
  \<^verbatim>\<open>c\<close> is its length. A cell outside \<^verbatim>\<open>HEX\<close>, more than \<^verbatim>\<open>MAX_DESC\<close> characters and the
  write to \<^verbatim>\<open>buf[-1]\<close> of an empty description are out of bounds.
\<close>

definition desc_layer ::
  "decanting_state \<Rightarrow> nat \<Rightarrow> nat \<Rightarrow> desc_error + string \<Rightarrow> desc_error + string" where
  "desc_layer state tube layer acc =
     (case acc of
        Inl e \<Rightarrow> Inl e
      | Inr buf \<Rightarrow>
          if tubes state tube layer \<noteq> - 1 then
            (if 0 \<le> tubes state tube layer \<and> tubes state tube layer < 16
                \<and> int (length buf) < MAX_DESC
             then Inr (buf @ [HEX ! nat (tubes state tube layer)])
             else Inl OutOfBounds)
          else Inr buf)"

definition desc_tube ::
  "decanting_state \<Rightarrow> nat \<Rightarrow> desc_error + string \<Rightarrow> desc_error + string" where
  "desc_tube state tube acc =
     (case fold (desc_layer state tube) (rev [0..<nat (nlayers (p state))]) acc of
        Inl e \<Rightarrow> Inl e
      | Inr buf \<Rightarrow>
          if int (length buf) < MAX_DESC then Inr (buf @ '','') else Inl OutOfBounds)"

definition game_desc :: "decanting_state \<Rightarrow> desc_error + string" where
  "game_desc state =
     (case fold (desc_tube state) [0..<nat (ntubes (p state))] (Inr []) of
        Inl e \<Rightarrow> Inl e
      | Inr buf \<Rightarrow> if buf = [] then Inl OutOfBounds else Inr (butlast buf))"

text \<open>The conversion \<^verbatim>\<open>(char)tube\<close> to a signed 8-bit value.\<close>

definition to_char :: "int \<Rightarrow> int" where
  "to_char v = (if v mod 256 < 128 then v mod 256 else v mod 256 - 256)"

definition fill_tube :: "nat \<Rightarrow> int \<Rightarrow> nat \<Rightarrow> decanting_state \<Rightarrow> decanting_state" where
  "fill_tube nl v tube state =
     fold (\<lambda>layer s. s\<lparr>tubes := (tubes s)(tube := (tubes s tube)(layer := v))\<rparr>)
          [0..<nl] state"

text \<open>
  Lines 273-304, \<^verbatim>\<open>new_game_desc\<close>. The state comes from \<^verbatim>\<open>snew\<close>, so its cells start
  with whatever the memory \<open>mem\<close> holds. The random state is not used by the function.
\<close>

definition new_game_desc ::
  "decanting_params \<Rightarrow> (nat \<Rightarrow> nat \<Rightarrow> int) \<Rightarrow> desc_error + string" where
  "new_game_desc params mem =
     (let state0 = \<lparr>solved = False, p = params, tubes = mem\<rparr> in
      if ncolours params = 12 \<and> nlayers params = 4
      then Inr (''11a8,9437,b672,2632,856a,aba5,067b,'' @ ''0370,8194,495b,8059,2314'')
      else
        (let state1 = fold (\<lambda>tube. fill_tube (nat (nlayers params)) (to_char (int tube)) tube)
                           [0..<nat (ncolours params)] state0;
             state2 = fold (\<lambda>tube. fill_tube (nat (nlayers params)) (- 1) tube)
                           [nat (ncolours params)..<nat (ntubes params)] state1
         in game_desc state2))"

text \<open>
  The description the parameters determine, written as a specification: one group of
  \<^verbatim>\<open>nlayers\<close> copies of its own hexadecimal digit for each colour, an empty group for
  each further tube, and commas between the groups.
\<close>

fun join_groups :: "string list \<Rightarrow> string" where
  "join_groups [] = []"
| "join_groups [g] = g"
| "join_groups (g # gs) = g @ '','' @ join_groups gs"

definition colour_group :: "decanting_params \<Rightarrow> nat \<Rightarrow> string" where
  "colour_group params tube =
     (if int tube < ncolours params
      then replicate (nat (nlayers params)) (HEX ! tube) else [])"

definition solved_desc :: "decanting_params \<Rightarrow> string" where
  "solved_desc params = join_groups (map (colour_group params) [0..<nat (ntubes params)])"

section \<open>Notions used in the statements\<close>

text \<open>
  A state is well formed when its centre lies in the grid and both arrays have
  \<open>width * height\<close> cells (so the grid has at least one cell).
\<close>

definition wellformed :: "game_state \<Rightarrow> bool" where
  "wellformed state =
     (cx state < width state \<and> cy state < height state \<and>
      length (tiles state) = width state * height state \<and>
      length (barriers state) = width state * height state)"

text \<open>The number of cells not yet marked, and "every mark of \<open>a\<close> is still there in \<open>b\<close>".\<close>

definition unmarked :: "int list \<Rightarrow> nat" where
  "unmarked active = card {i. i < length active \<and> active ! i = 0}"

definition keeps_marks :: "int list \<Rightarrow> int list \<Rightarrow> bool" where
  "keeps_marks a b = (length b = length a \<and> (\<forall>i. a ! i = ACTIVE \<longrightarrow> b ! i = ACTIVE))"

definition nibbles :: "int list" where
  "nibbles = [0, 1, 2, 3, 4, 5, 6, 7, 8, 9, 10, 11, 12, 13, 14, 15]"

text \<open>A small state for the examples: the solved 2 x 1 grid with its first tile turned.\<close>

definition example_state :: game_state where
  "example_state =
     \<lparr>width = 2, height = 1, cx = 1, cy = 0, wrapping = False,
      completed = False, last_rotate_dir = 1, tiles = [2, 4],
      barriers = [254, 251]\<rparr>"

text \<open>
  The tubes of a solved position: colour \<open>i\<close> fills tube \<open>i\<close> and the further tubes are
  empty. \<open>groups_text\<close> is the text of the first \<open>n\<close> groups, a comma after each.
\<close>

definition sorted_tubes :: "decanting_state \<Rightarrow> bool" where
  "sorted_tubes state =
     (\<forall>tube layer. int tube < ntubes (p state) \<and> int layer < nlayers (p state) \<longrightarrow>
        tubes state tube layer = (if int tube < ncolours (p state) then int tube else - 1))"

definition groups_text :: "decanting_params \<Rightarrow> nat \<Rightarrow> string" where
  "groups_text params n = concat (map (\<lambda>tube. colour_group params tube @ '','') [0..<n])"

text \<open>
  Cells are pairs \<open>(x, y)\<close>. \<open>mask_at\<close> reads the tile of a cell, \<open>neighbour\<close> is
  \<^verbatim>\<open>OFFSET\<close> on pairs, and \<open>exits\<close> is the test of lines 399-408: a direction leaves a
  cell unless the game does not wrap and the direction points off the grid.
\<close>

type_synonym cell = "nat \<times> nat"

definition in_cells :: "game_state \<Rightarrow> cell \<Rightarrow> bool" where
  "in_cells s c = (fst c < width s \<and> snd c < height s)"

definition mask_at :: "game_state \<Rightarrow> cell \<Rightarrow> int" where
  "mask_at s c = tile s (fst c) (snd c)"

definition neighbour :: "game_state \<Rightarrow> cell \<Rightarrow> int \<Rightarrow> cell" where
  "neighbour s c d = OFFSET (fst c) (snd c) d s"

definition exits :: "game_state \<Rightarrow> cell \<Rightarrow> int \<Rightarrow> bool" where
  "exits s c d =
     (\<not> (\<not> wrapping s \<and>
         ((d = U \<and> snd c = 0) \<or> (d = D \<and> int (snd c) = int (height s) - 1) \<or>
          (d = L \<and> fst c = 0) \<or> (d = R \<and> int (fst c) = int (width s) - 1))))"

definition centre :: "game_state \<Rightarrow> cell" where
  "centre s = (cx s, cy s)"

text \<open>A connection mask_at is a 4-bit value.\<close>

definition is_mask :: "int \<Rightarrow> bool" where
  "is_mask t = (0 \<le> t \<and> t < 16)"

text \<open>
  Two cells are linked in direction \<open>d\<close> when the first has bit \<open>d\<close> and its neighbour
  there has the reciprocal bit: the test of \<^verbatim>\<open>compute_active\<close>, line 634, without the
  barrier. A cell is reachable when a chain of links leads to it from the centre.
\<close>

definition linked :: "game_state \<Rightarrow> cell \<Rightarrow> int \<Rightarrow> bool" where
  "linked s c d =
     (d \<in> set dirs \<and> mask_at s c AND d \<noteq> 0 \<and> mask_at s (neighbour s c d) AND F d \<noteq> 0)"

inductive reachable :: "game_state \<Rightarrow> cell \<Rightarrow> bool" for s :: game_state where
  reachable_centre: "reachable s (centre s)"
| reachable_step: "reachable s c \<Longrightarrow> linked s c d \<Longrightarrow> reachable s (neighbour s c d)"

text \<open>
  Reciprocity: a cell has bit \<open>d\<close> exactly when its neighbour in direction \<open>d\<close> has the
  reciprocal bit \<open>F d\<close>.
\<close>

definition reciprocal :: "game_state \<Rightarrow> bool" where
  "reciprocal s =
     (\<forall>c d. in_cells s c \<and> d \<in> set dirs \<longrightarrow>
        (mask_at s c AND d \<noteq> 0 \<longleftrightarrow> mask_at s (neighbour s c d) AND F d \<noteq> 0))"

text \<open>
  Every pipe is counted once, at the end that holds its \<^verbatim>\<open>R\<close> or \<^verbatim>\<open>D\<close> bit (the other
  end holds \<^verbatim>\<open>L\<close> or \<^verbatim>\<open>U\<close>).
\<close>

definition pipes :: "int \<Rightarrow> nat" where
  "pipes t = (if t AND R \<noteq> 0 then 1 else 0) + (if t AND D \<noteq> 0 then 1 else 0)"

definition edge_count :: "game_state \<Rightarrow> nat" where
  "edge_count s = sum_list (map pipes (tiles s))"

text \<open>
  A cycle is a closed walk along links that never turns straight back: cells \<open>c i\<close>
  and directions \<open>d i\<close>, repeating with some period \<open>k\<close>, where each step follows a
  link and the next step is not the reciprocal half of the same pipe.
\<close>

definition cycle :: "game_state \<Rightarrow> (nat \<Rightarrow> cell) \<Rightarrow> (nat \<Rightarrow> int) \<Rightarrow> nat \<Rightarrow> bool" where
  "cycle s c d k =
     (0 < k \<and> (\<forall>i. c (i + k) = c i \<and> d (i + k) = d i) \<and>
      (\<forall>i. in_cells s (c i) \<and> linked s (c i) (d i) \<and>
           c (Suc i) = neighbour s (c i) (d i) \<and> d (Suc i) \<noteq> F (d i)))"

definition acyclic_grid :: "game_state \<Rightarrow> bool" where
  "acyclic_grid s = (\<not> (\<exists>c d k. cycle s c d k))"

text \<open>
  \<^verbatim>\<open>OFFSET\<close> wraps around whatever the wrapping flag is, so the neighbour of a cell in
  a direction that leaves the board of a non-wrapping game is the cell at the other
  end of its row or column. \<open>bits_exit\<close> says that no connection bit points in such a
  direction: then every link joins two cells that are adjacent on the board itself.
\<close>

definition bits_exit :: "game_state \<Rightarrow> bool" where
  "bits_exit s =
     (\<forall>c d. in_cells s c \<and> d \<in> set dirs \<and> mask_at s c AND d \<noteq> 0 \<longrightarrow> exits s c d)"

text \<open>
  The spanning-tree property of a grid: no connection bit leaves the board, every cell
  is reachable from the centre, there is no cycle, there is one pipe less than there
  are cells, and no cell is a full cross.
\<close>

definition spanning_tree :: "game_state \<Rightarrow> bool" where
  "spanning_tree s =
     (bits_exit s \<and> (\<forall>c. in_cells s c \<longrightarrow> reachable s c) \<and> acyclic_grid s \<and>
      edge_count s + 1 = width s * height s \<and>
      (\<forall>c. in_cells s c \<longrightarrow> mask_at s c \<noteq> 0x0F))"

text \<open>
  A non-wrapping 2 x 1 grid whose two tiles point away from each other, off the board:
  around the torus each has the reciprocal bit of the other.
\<close>

definition apart_grid :: game_state where
  "apart_grid =
     \<lparr>width = 2, height = 1, cx = 1, cy = 0, wrapping = False,
      completed = False, last_rotate_dir = 1, tiles = [4, 1], barriers = [14, 11]\<rparr>"

text \<open>
  The invariant of the loop of lines 309-421. A cell is used when its tile is not empty
  or it is the centre.
\<close>

definition used :: "game_state \<Rightarrow> cell \<Rightarrow> bool" where
  "used s c = (mask_at s c \<noteq> 0 \<or> c = centre s)"

definition used_count :: "game_state \<Rightarrow> nat" where
  "used_count s = card {c. in_cells s c \<and> used s c}"

definition grid_ok :: "game_state \<Rightarrow> bool" where
  "grid_ok s =
     (0 < width s \<and> 0 < height s \<and> cx s = width s div 2 \<and> cy s = height s div 2 \<and>
      length (tiles s) = width s * height s \<and>
      (\<forall>c. in_cells s c \<longrightarrow> is_mask (mask_at s c)))"

definition frontier_ok :: "game_state \<Rightarrow> xyd list \<Rightarrow> bool" where
  "frontier_ok s ps =
     (distinct ps \<and>
      (\<forall>x y d. (x, y, d) \<in> set ps \<longrightarrow>
         in_cells s (x, y) \<and> d \<in> set dirs \<and> exits s (x, y) d \<and> used s (x, y) \<and>
         \<not> used s (neighbour s (x, y) d) \<and> COUNT (mask_at s (x, y)) \<le> 2))"

definition frontier_complete :: "game_state \<Rightarrow> xyd list \<Rightarrow> bool" where
  "frontier_complete s ps =
     (\<forall>c d. in_cells s c \<and> d \<in> set dirs \<and> used s c \<and> exits s c d \<and>
            \<not> used s (neighbour s c d) \<longrightarrow>
        COUNT (mask_at s c) = 3 \<or>
        (\<exists>d'\<in>set dirs. neighbour s c d' = neighbour s c d \<and> (fst c, snd c, d') \<in> set ps))"

definition centre_first :: "game_state \<Rightarrow> bool" where
  "centre_first s = (mask_at s (centre s) = 0 \<longrightarrow> (\<forall>c. in_cells s c \<longrightarrow> mask_at s c = 0))"

text \<open>
  The order in which the cells were used: every used cell has a rank below \<open>n\<close>, linked
  cells have different ranks, and a cell has at most one bit towards a lower rank.
\<close>

definition ranked :: "game_state \<Rightarrow> (cell \<Rightarrow> nat) \<Rightarrow> nat \<Rightarrow> bool" where
  "ranked s rank n =
     ((\<forall>c. in_cells s c \<and> used s c \<longrightarrow> rank c < n) \<and>
      (\<forall>c d. in_cells s c \<and> d \<in> set dirs \<and> mask_at s c AND d \<noteq> 0 \<longrightarrow>
         rank (neighbour s c d) \<noteq> rank c) \<and>
      (\<forall>c d d'. in_cells s c \<and> d \<in> set dirs \<and> d' \<in> set dirs \<and>
          mask_at s c AND d \<noteq> 0 \<and> mask_at s c AND d' \<noteq> 0 \<and>
          rank (neighbour s c d) < rank c \<and> rank (neighbour s c d') < rank c \<longrightarrow> d = d'))"

definition growing :: "game_state \<Rightarrow> xyd list \<Rightarrow> bool" where
  "growing s ps =
     (grid_ok s \<and> reciprocal s \<and> frontier_ok s ps \<and> frontier_complete s ps \<and>
      bits_exit s \<and> centre_first s \<and> (\<forall>c. in_cells s c \<and> used s c \<longrightarrow> reachable s c) \<and>
      (\<exists>rank n. ranked s rank n) \<and> edge_count s + 1 = used_count s \<and>
      (\<forall>c. in_cells s c \<longrightarrow> COUNT (mask_at s c) \<le> 3))"

text \<open>
  The effect of lines 335-337 on the tiles: the pipe from the used cell \<open>c1\<close> in
  direction \<open>d1\<close> into its unused neighbour.
\<close>

definition connect :: "game_state \<Rightarrow> cell \<Rightarrow> int \<Rightarrow> game_state" where
  "connect s c1 d1 =
     (let c2 = neighbour s c1 d1
      in tile_or (tile_or s (fst c1) (snd c1) d1) (fst c2) (snd c2) (F d1))"

text \<open>The conditions under which lines 335-337 run in the loop.\<close>

definition pipe_step :: "game_state \<Rightarrow> cell \<Rightarrow> int \<Rightarrow> bool" where
  "pipe_step s c1 d1 =
     (grid_ok s \<and> reciprocal s \<and> in_cells s c1 \<and> d1 \<in> set dirs \<and> used s c1 \<and>
      \<not> used s (neighbour s c1 d1))"

text \<open>The possibilities after lines 343-420, from those left by the pick.\<close>

definition next_frontier :: "game_state \<Rightarrow> cell \<Rightarrow> int \<Rightarrow> xyd list \<Rightarrow> xyd list" where
  "next_frontier s c1 d1 ps1 =
     (let s2 = connect s c1 d1;
          c2 = neighbour s c1 d1;
          ps2 = (if COUNT (mask_at s2 c1) = 3
                 then find_del234 ps1 (fst c1, snd c1, 0x0F XOR mask_at s2 c1) else ps1);
          ps3 = remove_pointing s2 (fst c2) (snd c2) ps2
      in add_frontier s2 (fst c2) (snd c2) (F d1) ps3)"

text \<open>
  What is known when the loop has picked \<open>(c1, d1)\<close> out of the possibilities \<open>ps\<close>
  and \<open>ps1\<close> are the others.
\<close>

definition picked :: "game_state \<Rightarrow> xyd list \<Rightarrow> cell \<Rightarrow> int \<Rightarrow> xyd list \<Rightarrow> bool" where
  "picked s ps c1 d1 ps1 =
     (growing s ps \<and> (fst c1, snd c1, d1) \<in> set ps \<and> distinct ps1 \<and>
      set ps1 = set ps - {(fst c1, snd c1, d1)})"

text \<open>Two states that differ at most in the contents of their barrier arrays.\<close>

definition same_tiles :: "game_state \<Rightarrow> game_state \<Rightarrow> bool" where
  "same_tiles s s' =
     (width s' = width s \<and> height s' = height s \<and> cx s' = cx s \<and> cy s' = cy s \<and>
      wrapping s' = wrapping s \<and> tiles s' = tiles s \<and> completed s' = completed s \<and>
      last_rotate_dir s' = last_rotate_dir s \<and> length (barriers s') = length (barriers s))"

text \<open>The state the loop of the generator starts from.\<close>

definition start_state :: "game_params \<Rightarrow> game_state" where
  "start_state params = border_barriers (blank_state params)"

text \<open>The parameters the two assertions of lines 218-219 let through.\<close>

definition valid_params :: "game_params \<Rightarrow> bool" where
  "valid_params params =
     (pwidth params > 0 \<and> pheight params > 0 \<and> (pwidth params > 1 \<or> pheight params > 1))"

text \<open>
  A used cell at the edge of the used region: direction \<open>d\<close> leaves it into an unused
  cell. \<open>sealed\<close> says what the empty list of possibilities leaves of the invariant:
  every such cell is a T-piece.
\<close>

definition boundary :: "game_state \<Rightarrow> cell \<Rightarrow> int \<Rightarrow> bool" where
  "boundary s c d =
     (in_cells s c \<and> d \<in> set dirs \<and> used s c \<and> exits s c d \<and>
      \<not> used s (neighbour s c d))"

definition sealed :: "game_state \<Rightarrow> bool" where
  "sealed s =
     (grid_ok s \<and> reciprocal s \<and> bits_exit s \<and>
      (\<forall>c d. boundary s c d \<longrightarrow> COUNT (mask_at s c) = 3))"

text \<open>
  A walk along links that never turns straight back (a cycle without its period). Once
  such a walk has gone to a higher rank it goes higher with every step.
\<close>

definition walk :: "game_state \<Rightarrow> (nat \<Rightarrow> cell) \<Rightarrow> (nat \<Rightarrow> int) \<Rightarrow> bool" where
  "walk s c d =
     (\<forall>i. in_cells s (c i) \<and> linked s (c i) (d i) \<and>
          c (Suc i) = neighbour s (c i) (d i) \<and> d (Suc i) \<noteq> F (d i))"

text \<open>Parameters and a grid for the examples: a wrapping 3 x 3 game.\<close>

definition example_params :: game_params where
  "example_params =
     \<lparr>pwidth = 3, pheight = 3, pwrapping = True, barrier_probability = 1 / 2\<rparr>"

definition example_grid :: game_state where
  "example_grid =
     \<lparr>width = 3, height = 3, cx = 1, cy = 1, wrapping = True,
      completed = False, last_rotate_dir = 1,
      tiles = [9, 13, 4, 2, 3, 12, 5, 4, 3],
      barriers = [0, 0, 0, 0, 0, 0, 0, 0, 0]\<rparr>"

text \<open>Parameters and a grid for the examples: a 2 x 2 game that does not wrap.\<close>

definition bounded_params :: game_params where
  "bounded_params =
     \<lparr>pwidth = 2, pheight = 2, pwrapping = False, barrier_probability = 1 / 2\<rparr>"

definition bounded_grid :: game_state where
  "bounded_grid =
     \<lparr>width = 2, height = 2, cx = 1, cy = 1, wrapping = False,
      completed = False, last_rotate_dir = 1, tiles = [8, 8, 3, 6],
      barriers = [6, 3, 12, 9]\<rparr>"

text \<open>The barrier cell of a grid cell.\<close>

definition barrier_at :: "game_state \<Rightarrow> cell \<Rightarrow> int" where
  "barrier_at s c = barrier s (fst c) (snd c)"

text \<open>
  Two states of the same game of which the second has every barrier and corner bit of
  the first; the tiles may differ.
\<close>

definition more_barriers :: "game_state \<Rightarrow> game_state \<Rightarrow> bool" where
  "more_barriers s s' =
     (width s' = width s \<and> height s' = height s \<and> wrapping s' = wrapping s \<and>
      length (barriers s') = length (barriers s) \<and>
      (\<forall>i d. barriers s ! i AND d \<noteq> 0 \<longrightarrow> barriers s' ! i AND d \<noteq> 0))"

text \<open>Two states with the same four barrier bits in every cell.\<close>

definition same_edges :: "game_state \<Rightarrow> game_state \<Rightarrow> bool" where
  "same_edges s s' =
     (width s' = width s \<and> height s' = height s \<and> wrapping s' = wrapping s \<and>
      length (barriers s') = length (barriers s) \<and>
      (\<forall>i. \<forall>d\<in>set dirs. barriers s' ! i AND d \<noteq> 0 \<longleftrightarrow> barriers s ! i AND d \<noteq> 0))"

text \<open>The barrier edges of a state: the cells and directions whose barrier bit is set.\<close>

definition barrier_edges :: "game_state \<Rightarrow> (cell \<times> int) set" where
  "barrier_edges s = {(c, d). in_cells s c \<and> d \<in> set dirs \<and> barrier_at s c AND d \<noteq> 0}"

text \<open>
  The barrier edges placed by a run: the candidate edges, listed from the grid before
  the shuffle, whose barrier bit is set in the state the run returns.
\<close>

definition placed_barriers :: "game_state \<Rightarrow> game_state \<Rightarrow> xyd list" where
  "placed_barriers s1 s =
     filter (\<lambda>(x, y, d). barrier s x y AND d \<noteq> 0) (barrier_candidates s1)"

text \<open>A 2 x 2 game with one candidate edge and probability 3/4.\<close>

definition small_params :: game_params where
  "small_params = \<lparr>pwidth = 2, pheight = 2, pwrapping = False, barrier_probability = 3 / 4\<rparr>"

definition small_grid :: game_state where
  "small_grid =
     \<lparr>width = 2, height = 2, cx = 1, cy = 1, wrapping = False,
      completed = False, last_rotate_dir = 1, tiles = [8, 8, 3, 6],
      barriers = [6, 3, 12, 9]\<rparr>"

definition small_game :: game_state where
  "small_game = small_grid\<lparr>barriers := [118, 179, 236, 217]\<rparr>"

text \<open>A candidate edge leads right or down from a cell of the grid, and stays on it.\<close>

definition candidate :: "game_state \<Rightarrow> xyd \<Rightarrow> bool" where
  "candidate s e =
     (case e of (x, y, d) \<Rightarrow> in_cells s (x, y) \<and> (d = R \<or> d = D) \<and> exits s (x, y) d)"

text \<open>
  The barrier array before the loop of lines 470-495: a barrier bit is set only where
  the direction does not leave the cell (the border of a non-wrapping game).
\<close>

definition borders_only :: "game_state \<Rightarrow> bool" where
  "borders_only s =
     (length (barriers s) = width s * height s \<and>
      (\<forall>c d. in_cells s c \<and> d \<in> set dirs \<and> barrier_at s c AND d \<noteq> 0 \<longrightarrow> \<not> exits s c d))"

definition candidates_ok :: "game_state \<Rightarrow> xyd list \<Rightarrow> bool" where
  "candidates_ok s bs = (distinct bs \<and> (\<forall>e\<in>set bs. candidate s e))"

text \<open>
  A cell is marked when its entry of the array is not 0. A direction is passable from
  a cell when the first three tests of line 634 hold. The scan of a cell records its
  result in the array and in the list of cells still to examine.
\<close>

definition marked :: "game_state \<Rightarrow> int list \<Rightarrow> cell \<Rightarrow> bool" where
  "marked s active c = (active ! index s (fst c) (snd c) \<noteq> 0)"

definition passable :: "game_state \<Rightarrow> cell \<Rightarrow> int \<Rightarrow> bool" where
  "passable s c d =
     (mask_at s c AND d \<noteq> 0 \<and> mask_at s (neighbour s c d) AND F d \<noteq> 0 \<and>
      \<not> (barrier_at s c AND d \<noteq> 0))"

definition scanned ::
  "game_state \<Rightarrow> int list \<times> xyd list \<Rightarrow> int list \<times> xyd list \<Rightarrow> bool" where
  "scanned s before after =
     (case (before, after) of ((a, t), (a', t')) \<Rightarrow>
        length a' = length a \<and>
        (\<forall>c. in_cells s c \<and> marked s a c \<longrightarrow> marked s a' c) \<and>
        set t \<subseteq> set t' \<and>
        (\<forall>e\<in>set t'. e \<in> set t \<or> (\<exists>c. in_cells s c \<and> e = (fst c, snd c, 0))) \<and>
        (\<forall>c. in_cells s c \<and> marked s a' c \<and> \<not> marked s a c
             \<longrightarrow> (fst c, snd c, 0) \<in> set t'))"

text \<open>
  The invariant of the loop of \<^verbatim>\<open>compute_active\<close>: a marked cell is still to examine,
  or every passable direction leads from it to a marked cell.
\<close>

definition flooding :: "game_state \<Rightarrow> int list \<Rightarrow> xyd list \<Rightarrow> bool" where
  "flooding s active todo =
     (length active = width s * height s \<and>
      (\<forall>x y d. (x, y, d) \<in> set todo \<longrightarrow> in_cells s (x, y) \<and> d = 0) \<and>
      (\<forall>c. in_cells s c \<and> marked s active c \<longrightarrow>
         (fst c, snd c, 0) \<in> set todo \<or>
         (\<forall>d\<in>set dirs. passable s c d \<longrightarrow> marked s active (neighbour s c d))))"

text \<open>
  The float nearest to 0.7 as the probability of the 3 x 3 example, a list of random
  numbers, and the state \<^verbatim>\<open>new_game\<close> returns for them.
\<close>

definition float_params :: game_params where
  "float_params = example_params\<lparr>barrier_probability := 11744051 / 16777216\<rparr>"

definition example_draws :: "nat list" where
  "example_draws =
     [5, 3, 7, 2, 9, 1, 1, 1, 0, 1, 2, 3, 0, 1, 2, 3, 0, 2, 5, 1, 4, 0, 3, 2, 1]"

definition example_game :: game_state where
  "example_game =
     \<lparr>width = 3, height = 3, cx = 1, cy = 1, wrapping = True,
      completed = False, last_rotate_dir = 1,
      tiles = [9, 11, 1, 1, 3, 9, 5, 2, 3],
      barriers = [118, 34, 137, 237, 68, 19, 186, 104, 0]\<rparr>"

section \<open>Rotation\<close>

lemma nibble_cases: "0 \<le> v \<Longrightarrow> v < 16 \<Longrightarrow> v \<in> set nibbles"
  unfolding nibbles_def by simp presburger

lemma rotations_on_nibbles:
  "\<forall>v\<in>set nibbles. A (A (A (A v))) = v \<and> C (C (C (C v))) = v"
  by (simp add: nibbles_def A_def C_def)

text \<open>
  Claim C8. Four anticlockwise quarter turns, and four clockwise quarter turns,
  give back every 4-bit connection mask_at.
\<close>

theorem rotate_four_times:
  assumes "0 \<le> v" and "v < 16"
  shows "A (A (A (A v))) = v \<and> C (C (C (C v))) = v"
  using nibble_cases [OF assms] rotations_on_nibbles by blast

theorem rotate_four_times_witness:
  "A (A (A (A 11))) = 11 \<and> C (C (C (C 11))) = 11"
  using rotate_four_times [of 11] by simp

section \<open>The ordered set\<close>

lemma xyd_cmp_eq: "xyd_cmp a b = 0 \<longleftrightarrow> a = b"
  by (cases a; cases b) auto

lemma find234_eq: "find234 t e = (if e \<in> set t then Some e else None)"
  by (induction t) (auto simp: xyd_cmp_eq)

lemma set_ins234: "set (ins234 t e) = insert e (set t)"
  by (induction t) auto

lemma length_ins234: "length (ins234 t e) = Suc (length t)"
  by (induction t) auto

lemma distinct_ins234: "distinct t \<Longrightarrow> e \<notin> set t \<Longrightarrow> distinct (ins234 t e)"
  by (induction t) (auto simp: set_ins234)

lemma set_add234: "set (add234 t e) = insert e (set t)"
  by (auto simp: add234_def find234_eq set_ins234)

lemma distinct_add234: "distinct t \<Longrightarrow> distinct (add234 t e)"
  by (auto simp: add234_def find234_eq distinct_ins234)

lemma length_add234: "length (add234 t e) \<le> Suc (length t)"
  by (auto simp: add234_def find234_eq length_ins234)

lemma set_del234: "distinct t \<Longrightarrow> set (del234 t e) = set t - {e}"
  by (induction t) (auto simp: xyd_cmp_eq)

lemma distinct_del234: "distinct t \<Longrightarrow> distinct (del234 t e)"
  by (induction t) (auto simp: xyd_cmp_eq set_del234)

lemma set_find_del234: "distinct t \<Longrightarrow> set (find_del234 t k) = set t - {k}"
  by (auto simp: find_del234_def find234_eq set_del234)

lemma distinct_find_del234: "distinct t \<Longrightarrow> distinct (find_del234 t k)"
  by (auto simp: find_del234_def find234_eq distinct_del234)

lemma delpos234_in:
  "i < length t \<Longrightarrow> delpos234 t i = (Some (t ! i), take i t @ drop (Suc i) t)"
  by (simp add: delpos234_def)

lemma distinct_delpos: 
  assumes "distinct t" 
  shows "distinct (take i t @ drop (Suc i) t)"
proof -
  have "set (take i t) \<inter> set (drop (Suc i) t) = {}"
    using assms by (simp add: set_take_disj_set_drop_if_distinct)
  then show ?thesis using assms by simp
qed

lemma set_delpos:
  assumes "distinct t" and "i < length t"
  shows "set (take i t @ drop (Suc i) t) = set t - {t ! i}"
proof -
  have eq: "take i t @ t ! i # drop (Suc i) t = t"
    using assms(2) by (rule id_take_nth_drop [symmetric])
  have d: "distinct (take i t @ t ! i # drop (Suc i) t)"
    by (simp only: eq assms(1))
  have s: "set (take i t @ t ! i # drop (Suc i) t) = set t"
    by (simp only: eq)
  from d have "t ! i \<notin> set (take i t)" and "t ! i \<notin> set (drop (Suc i) t)"
    by auto
  with s show ?thesis by auto
qed

subsection \<open>Grid arithmetic\<close>

lemma OFFSET_in_grid:
  assumes "0 < width state" and "0 < height state" and "OFFSET x1 y1 d state = (x2, y2)"
  shows "x2 < width state \<and> y2 < height state"
  using assms by (auto simp: OFFSET_def nat_less_iff)

lemma index_in_range:
  assumes "x < width state" and "y < height state"
  shows "index state x y < width state * height state"
proof -
  have "y * width state + x < y * width state + width state"
    using assms(1) by simp
  also have "\<dots> = Suc y * width state" by simp
  also have "\<dots> \<le> height state * width state"
    using assms(2) by (intro mult_le_mono1) simp
  finally show ?thesis by (simp add: index_def mult.commute)
qed

section \<open>The connectivity solver returns and marks the centre\<close>

lemma unmarked_update:
  assumes "k < length active" and "active ! k = 0"
  shows "Suc (unmarked (active[k := ACTIVE])) = unmarked active"
proof -
  have "{i. i < length (active[k := ACTIVE]) \<and> active[k := ACTIVE] ! i = 0}
        = {i. i < length active \<and> active ! i = 0} - {k}"
    using assms(1) by (auto simp: nth_list_update ACTIVE_def)
  moreover have "k \<in> {i. i < length active \<and> active ! i = 0}"
    using assms by simp
  moreover have "finite {i. i < length active \<and> active ! i = 0}" by simp
  ultimately show ?thesis
    unfolding unmarked_def by (metis card_Suc_Diff1)
qed

lemma keeps_marks_refl: "keeps_marks a a"
  by (simp add: keeps_marks_def)

lemma keeps_marks_trans: "keeps_marks a b \<Longrightarrow> keeps_marks b c \<Longrightarrow> keeps_marks a c"
  by (simp add: keeps_marks_def)

lemma spread_measure:
  assumes "0 < width state" and "0 < height state"
    and "length active = width state * height state"
    and "spread state x1 y1 d1 (active, todo) = (active', todo')"
  shows "keeps_marks active active' \<and>
         2 * unmarked active' + length todo' \<le> 2 * unmarked active + length todo"
proof -
  obtain x2 y2 where off: "OFFSET x1 y1 d1 state = (x2, y2)"
    by (cases "OFFSET x1 y1 d1 state")
  then have "x2 < width state \<and> y2 < height state"
    using OFFSET_in_grid assms(1,2) by blast
  then have k: "index state x2 y2 < length active"
    using index_in_range assms(3) by simp
  show ?thesis
  proof (cases "(active', todo') = (active, todo)")
    case True
    then show ?thesis by (simp add: keeps_marks_refl)
  next
    case False
    then have z: "active ! index state x2 y2 = 0"
      and a': "active' = active[index state x2 y2 := ACTIVE]"
      and t': "todo' = add234 todo (new_xyd x2 y2 0)"
      using assms(4) off by (auto simp: spread_def split: if_splits)
    have "Suc (unmarked active') = unmarked active"
      using unmarked_update [OF k z] a' by simp
    moreover have "length todo' \<le> Suc (length todo)"
      using t' length_add234 by simp
    moreover have "keeps_marks active active'"
      using a' k by (auto simp: keeps_marks_def nth_list_update)
    ultimately show ?thesis by linarith
  qed
qed

lemma spread_all_measure:
  assumes "0 < width state" and "0 < height state"
    and "length active = width state * height state"
    and "fold (spread state x1 y1) dirs (active, todo) = (active', todo')"
  shows "keeps_marks active active' \<and>
         2 * unmarked active' + length todo' \<le> 2 * unmarked active + length todo"
proof -
  obtain a1 t1 where s1: "spread state x1 y1 1 (active, todo) = (a1, t1)"
    by (cases "spread state x1 y1 1 (active, todo)")
  obtain a2 t2 where s2: "spread state x1 y1 2 (a1, t1) = (a2, t2)"
    by (cases "spread state x1 y1 2 (a1, t1)")
  obtain a3 t3 where s3: "spread state x1 y1 4 (a2, t2) = (a3, t3)"
    by (cases "spread state x1 y1 4 (a2, t2)")
  have s4: "spread state x1 y1 8 (a3, t3) = (active', todo')"
    using assms(4) s1 s2 s3 by (simp add: dirs_def)
  note m1 = spread_measure [OF assms(1,2,3) s1]
  then have l1: "length a1 = width state * height state"
    using assms(3) by (simp add: keeps_marks_def)
  note m2 = spread_measure [OF assms(1,2) l1 s2]
  then have l2: "length a2 = width state * height state"
    using l1 by (simp add: keeps_marks_def)
  note m3 = spread_measure [OF assms(1,2) l2 s3]
  then have l3: "length a3 = width state * height state"
    using l2 by (simp add: keeps_marks_def)
  note m4 = spread_measure [OF assms(1,2) l3 s4]
  have "keeps_marks active active'"
    using m1 m2 m3 m4 keeps_marks_trans by blast
  moreover have "2 * unmarked active' + length todo' \<le> 2 * unmarked active + length todo"
    using m1 m2 m3 m4 by linarith
  ultimately show ?thesis by simp
qed

lemma flood_returns:
  assumes "0 < width state" and "0 < height state"
    and "length active = width state * height state"
  shows "\<exists>active'. flood state active todo = Some (active', []) \<and> keeps_marks active active'"
  using assms(3)
proof (induction "2 * unmarked active + length todo" arbitrary: active todo rule: less_induct)
  case less
  show ?case
  proof (cases todo)
    case Nil
    then show ?thesis
      by (subst flood.simps) (simp add: delpos234_def keeps_marks_refl)
  next
    case (Cons e rest)
    obtain x1 y1 d where e: "e = (x1, y1, d)" by (cases e)
    obtain a1 t1 where f: "fold (spread state x1 y1) dirs (active, rest) = (a1, t1)"
      by (cases "fold (spread state x1 y1) dirs (active, rest)")
    note m = spread_all_measure [OF assms(1,2) less.prems f]
    have len: "length a1 = width state * height state"
      using m less.prems by (simp add: keeps_marks_def)
    have "2 * unmarked a1 + length t1 < 2 * unmarked active + length todo"
      using m Cons by simp
    from less.hyps [OF this len]
    obtain active' where r: "flood state a1 t1 = Some (active', [])"
      and k: "keeps_marks a1 active'" by blast
    have "flood state active todo = flood state a1 t1"
      by (subst flood.simps) (simp add: delpos234_def Cons e f)
    then show ?thesis
      using r k m keeps_marks_trans by auto
  qed
qed

text \<open>
  Claim C10. For every state whose centre lies in the grid and whose arrays have
  \<open>width * height\<close> cells, \<^verbatim>\<open>compute_active\<close> returns, and the array it returns marks
  the centre cell \<^verbatim>\<open>ACTIVE\<close>, whatever the tiles and the barriers hold.
\<close>

theorem centre_active:
  assumes "wellformed state"
  shows "\<exists>active. compute_active state = Some (Inr active) \<and>
           active ! index state (cx state) (cy state) = ACTIVE"
proof -
  have w: "0 < width state" and h: "0 < height state"
    using assms by (auto simp: wellformed_def)
  let ?k = "index state (cx state) (cy state)"
  let ?a0 = "replicate (width state * height state) (0::int)"
  have k: "?k < width state * height state"
    using assms index_in_range by (simp add: wellformed_def)
  have len: "length (?a0[?k := ACTIVE]) = width state * height state" by simp
  from flood_returns [OF w h len]
  obtain active where f: "flood state (?a0[?k := ACTIVE])
        (add234 [] (new_xyd (cx state) (cy state) 0)) = Some (active, [])"
    and km: "keeps_marks (?a0[?k := ACTIVE]) active" by blast
  have "(?a0[?k := ACTIVE]) ! ?k = ACTIVE" using k by simp
  then have "active ! ?k = ACTIVE" using km by (simp add: keeps_marks_def)
  moreover have "compute_active state = Some (Inr active)"
    using f by (simp add: compute_active_def count234_def)
  ultimately show ?thesis by blast
qed

theorem centre_active_witness:
  "\<exists>active.
     compute_active \<lparr>width = 2, height = 1, cx = 1, cy = 0, wrapping = False,
                     completed = False, last_rotate_dir = 1, tiles = [0, 0],
                     barriers = [15, 15]\<rparr> = Some (Inr active) \<and>
     active ! 1 = ACTIVE"
  using centre_active [of "\<lparr>width = 2, height = 1, cx = 1, cy = 0, wrapping = False,
                     completed = False, last_rotate_dir = 1, tiles = [0, 0],
                     barriers = [15, 15]\<rparr>"]
  by (simp add: wellformed_def index_def)

section \<open>Clicks that make no move\<close>

text \<open>
  A click left of, above, right of or below the grid returns \<^verbatim>\<open>NULL\<close>, and so does a
  left or right click on a locked tile. The caller's state is never written to.
\<close>

lemma make_move_outside:
  assumes "x - 17 < 0 \<or> y - 17 < 0 \<or> (x - 17) div 32 \<ge> int (width state)
           \<or> (y - 17) div 32 \<ge> int (height state)"
  shows "make_move state x y button = Some (Inr None)"
  using assms
  by (auto simp: make_move_def WINDOW_OFFSET_def TILE_BORDER_def TILE_SIZE_def Let_def)

lemma make_move_locked:
  assumes "button = LEFT_BUTTON \<or> button = RIGHT_BUTTON"
    and "0 \<le> x - 17" and "0 \<le> y - 17"
    and "tile state (nat ((x - 17) div 32)) (nat ((y - 17) div 32)) AND LOCKED \<noteq> 0"
  shows "make_move state x y button = Some (Inr None)"
  using assms
  by (auto simp: make_move_def WINDOW_OFFSET_def TILE_BORDER_def TILE_SIZE_def Let_def)

text \<open>
  Claim C7. A click on the border padding of a tile is meant to make no move, but line
  677 tests the tile column \<^verbatim>\<open>tx\<close> and row \<^verbatim>\<open>ty\<close> where it should test the pixel
  coordinates. The click at pixel (48, 17) falls on pixel column 31 of tile (0, 0), its
  padding column, and the left button turns the tile all the same.
\<close>

theorem border_click_rotates:
  "48 - (WINDOW_OFFSET + TILE_BORDER) = 31 \<and>
   31 mod TILE_SIZE \<ge> TILE_SIZE - TILE_BORDER \<and>
   make_move example_state 48 17 LEFT_BUTTON =
     Some (Inr (Some (example_state\<lparr>tiles := [4, 4]\<rparr>)))"
  by code_simp

section \<open>Decanting: the description of a new game\<close>

lemma p_fill_tube: "p (fill_tube nl v t s) = p s"
  unfolding fill_tube_def by (induction nl) auto

lemma tubes_fill_tube:
  "tubes (fill_tube nl v t s) t' l = (if t' = t \<and> l < nl then v else tubes s t' l)"
  unfolding fill_tube_def by (induction nl) auto

lemma fill_range:
  "tubes (fold (\<lambda>tube. fill_tube nl (f tube) tube) [a..<b] s) t l
     = (if a \<le> t \<and> t < b \<and> l < nl then f t else tubes s t l)"
  by (induction b) (auto simp: tubes_fill_tube)

lemma fill_range_p:
  "p (fold (\<lambda>tube. fill_tube nl (f tube) tube) [a..<b] s) = p s"
  by (induction b) (auto simp: p_fill_tube)

lemma desc_layers_full:
  assumes "\<forall>l<n. tubes state tube l = v" and "0 \<le> v" and "v < 16"
    and "int (length buf) + int n \<le> MAX_DESC"
  shows "fold (desc_layer state tube) (rev [0..<n]) (Inr buf)
           = Inr (buf @ replicate n (HEX ! nat v))"
  using assms
proof (induction n arbitrary: buf)
  case 0
  then show ?case by simp
next
  case (Suc n)
  have "desc_layer state tube n (Inr buf) = Inr (buf @ [HEX ! nat v])"
    using Suc.prems by (simp add: desc_layer_def)
  moreover have "fold (desc_layer state tube) (rev [0..<n]) (Inr (buf @ [HEX ! nat v]))
      = Inr ((buf @ [HEX ! nat v]) @ replicate n (HEX ! nat v))"
    using Suc.prems by (intro Suc.IH) auto
  ultimately show ?case by (simp add: replicate_app_Cons_same)
qed

lemma desc_layers_empty:
  assumes "\<forall>l<n. tubes state tube l = - 1"
  shows "fold (desc_layer state tube) (rev [0..<n]) (Inr buf) = Inr buf"
  using assms by (induction n arbitrary: buf) (auto simp: desc_layer_def)

lemma length_colour_group: "int (length (colour_group params tube)) \<le> max 0 (nlayers params)"
  by (simp add: colour_group_def)

lemma desc_tube_sorted:
  assumes "sorted_tubes state" and "int tube < ntubes (p state)"
    and "ncolours (p state) \<le> 16"
    and "int (length buf) + max 0 (nlayers (p state)) < MAX_DESC"
  shows "desc_tube state tube (Inr buf) = Inr (buf @ colour_group (p state) tube @ '','')"
proof (cases "int tube < ncolours (p state)")
  case True
  have "\<forall>l<nat (nlayers (p state)). tubes state tube l = int tube"
    using assms(1,2) True by (auto simp: sorted_tubes_def)
  moreover have "int (length buf) + int (nat (nlayers (p state))) \<le> MAX_DESC"
    using assms(4) by auto
  ultimately have "fold (desc_layer state tube) (rev [0..<nat (nlayers (p state))]) (Inr buf)
      = Inr (buf @ replicate (nat (nlayers (p state))) (HEX ! nat (int tube)))"
    using True assms(3) by (intro desc_layers_full) auto
  then show ?thesis
    using True assms(4) by (auto simp: desc_tube_def colour_group_def)
next
  case False
  have "\<forall>l<nat (nlayers (p state)). tubes state tube l = - 1"
    using assms(1,2) False by (auto simp: sorted_tubes_def)
  then have "fold (desc_layer state tube) (rev [0..<nat (nlayers (p state))]) (Inr buf)
      = Inr buf"
    by (rule desc_layers_empty)
  then show ?thesis
    using False assms(4) by (auto simp: desc_tube_def colour_group_def)
qed

lemma length_groups_text:
  "int (length (groups_text params n)) \<le> int n * (max 0 (nlayers params) + 1)"
proof (induction n)
  case 0
  then show ?case by (simp add: groups_text_def)
next
  case (Suc n)
  have "int (length (groups_text params (Suc n)))
      = int (length (groups_text params n)) + int (length (colour_group params n)) + 1"
    by (simp add: groups_text_def)
  also have "\<dots> \<le> int n * (max 0 (nlayers params) + 1) + max 0 (nlayers params) + 1"
    using Suc.IH length_colour_group [of params n] by linarith
  also have "\<dots> = int (Suc n) * (max 0 (nlayers params) + 1)"
    by (simp add: algebra_simps)
  finally show ?case .
qed

lemma desc_tubes_sorted:
  assumes "sorted_tubes state" and "ncolours (p state) \<le> 16"
    and "0 \<le> nlayers (p state)" and "nlayers (p state) \<le> MAX_LAYERS"
    and "int n \<le> ntubes (p state)" and "ntubes (p state) \<le> MAX_TUBES"
  shows "fold (desc_tube state) [0..<n] (Inr []) = Inr (groups_text (p state) n)"
  using assms(5)
proof (induction n)
  case 0
  then show ?case by (simp add: groups_text_def)
next
  case (Suc n)
  then have IH: "fold (desc_tube state) [0..<n] (Inr []) = Inr (groups_text (p state) n)"
    by simp
  have "int n * (max 0 (nlayers (p state)) + 1) \<le> 15 * 9"
    using Suc.prems assms(3,4,6) by (intro mult_mono) (auto simp: MAX_TUBES_def MAX_LAYERS_def)
  then have "int (length (groups_text (p state) n)) + max 0 (nlayers (p state)) < MAX_DESC"
    using length_groups_text [of "p state" n] assms(4)
    by (simp add: MAX_DESC_def MAX_TUBES_def MAX_LAYERS_def)
  then have "desc_tube state n (Inr (groups_text (p state) n))
      = Inr (groups_text (p state) n @ colour_group (p state) n @ '','')"
    using assms(1,2) Suc.prems by (intro desc_tube_sorted) auto
  then show ?case using IH by (simp add: groups_text_def)
qed

lemma butlast_groups:
  "ts \<noteq> [] \<Longrightarrow> butlast (concat (map (\<lambda>t. g t @ '','') ts)) = join_groups (map g ts)"
proof (induction ts)
  case Nil
  then show ?case by simp
next
  case (Cons t ts)
  show ?case
  proof (cases ts)
    case Nil
    then show ?thesis by simp
  next
    case (Cons u us)
    then have "concat (map (\<lambda>t. g t @ '','') ts) \<noteq> []" by simp
    then have "butlast (concat (map (\<lambda>t. g t @ '','') (t # ts)))
      = g t @ '','' @ butlast (concat (map (\<lambda>t. g t @ '','') ts))"
      by (simp add: butlast_append)
    then show ?thesis using Cons.IH Cons by simp
  qed
qed

lemma game_desc_sorted:
  assumes "sorted_tubes state" and "validate_params (p state) = None"
  shows "game_desc state = Inr (solved_desc (p state))"
proof -
  have v: "ncolours (p state) \<le> 16" "0 \<le> nlayers (p state)"
    "nlayers (p state) \<le> MAX_LAYERS" "ntubes (p state) \<le> MAX_TUBES"
    "3 \<le> ntubes (p state)"
    using assms(2)
    by (auto simp: validate_params_def MAX_COLOURS_def split: if_splits)
  have "int (nat (ntubes (p state))) \<le> ntubes (p state)" using v(5) by simp
  from desc_tubes_sorted [OF assms(1) v(1,2,3) this v(4)]
  have f: "fold (desc_tube state) [0..<nat (ntubes (p state))] (Inr [])
      = Inr (groups_text (p state) (nat (ntubes (p state))))" .
  have ne: "[0..<nat (ntubes (p state))] \<noteq> []" using v(5) by simp
  then have "groups_text (p state) (nat (ntubes (p state))) \<noteq> []"
    by (cases "[0..<nat (ntubes (p state))]") (auto simp: groups_text_def)
  moreover have "butlast (groups_text (p state) (nat (ntubes (p state)))) = solved_desc (p state)"
    unfolding groups_text_def solved_desc_def
    using butlast_groups [OF ne, of "colour_group (p state)"] by simp
  ultimately show ?thesis using f by (simp add: game_desc_def)
qed

lemma to_char_small: "0 \<le> v \<Longrightarrow> v < 128 \<Longrightarrow> to_char v = v"
  by (simp add: to_char_def)

text \<open>
  Claim C9. With \<^verbatim>\<open>ncolours = 12\<close> and \<^verbatim>\<open>nlayers = 4\<close>, \<^verbatim>\<open>new_game_desc\<close> returns the
  fixed string of line 285 and runs no generator; for every other combination that
  \<^verbatim>\<open>validate_params\<close> accepts, the description is the one the parameters determine:
  the solved position, whatever the uninitialised state held.
\<close>

theorem new_game_desc_cases:
  "(ncolours params = 12 \<and> nlayers params = 4 \<longrightarrow>
      new_game_desc params mem
        = Inr ''11a8,9437,b672,2632,856a,aba5,067b,0370,8194,495b,8059,2314'') \<and>
   (validate_params params = None \<and> \<not> (ncolours params = 12 \<and> nlayers params = 4) \<longrightarrow>
      new_game_desc params mem = Inr (solved_desc params))"
proof (intro conjI impI)
  assume "ncolours params = 12 \<and> nlayers params = 4"
  then show "new_game_desc params mem
        = Inr ''11a8,9437,b672,2632,856a,aba5,067b,0370,8194,495b,8059,2314''"
    by (simp add: new_game_desc_def)
next
  assume a: "validate_params params = None \<and> \<not> (ncolours params = 12 \<and> nlayers params = 4)"
  let ?nl = "nat (nlayers params)"
  let ?s1 = "fold (\<lambda>tube. fill_tube ?nl (to_char (int tube)) tube)
                  [0..<nat (ncolours params)] \<lparr>solved = False, p = params, tubes = mem\<rparr>"
  let ?s2 = "fold (\<lambda>tube. fill_tube ?nl (- 1) tube)
                  [nat (ncolours params)..<nat (ntubes params)] ?s1"
  have v: "2 \<le> ncolours params" "ncolours params \<le> 12" "ncolours params < ntubes params"
    "2 \<le> nlayers params"
    using a by (auto simp: validate_params_def MAX_COLOURS_def split: if_splits)
  have p2: "p ?s2 = params" by (simp add: fill_range_p)
  have "sorted_tubes ?s2"
    unfolding sorted_tubes_def p2
  proof (intro allI impI)
    fix tube layer
    assume r: "int tube < ntubes params \<and> int layer < nlayers params"
    show "tubes ?s2 tube layer = (if int tube < ncolours params then int tube else - 1)"
    proof (cases "int tube < ncolours params")
      case True
      then have "to_char (int tube) = int tube"
        using v(2) by (intro to_char_small) auto
      moreover have "tube < nat (ncolours params)" and "layer < nat (nlayers params)"
        using True r by linarith+
      ultimately show ?thesis
        using True by (simp add: fill_range)
    next
      case False
      moreover have "\<not> tube < nat (ncolours params)" and "tube < nat (ntubes params)"
        and "layer < nat (nlayers params)"
        using False r by linarith+
      ultimately show ?thesis by (simp add: fill_range)
    qed
  qed
  then have "game_desc ?s2 = Inr (solved_desc params)"
    using game_desc_sorted [of ?s2] a p2 by simp
  then show "new_game_desc params mem = Inr (solved_desc params)"
    using a by (auto simp: new_game_desc_def Let_def)
qed

theorem new_game_desc_cases_witness:
  "new_game_desc \<lparr>ncolours = 12, ntubes = 14, nlayers = 4, hiddenlayers = False\<rparr> (\<lambda>tube layer. 0)
     = Inr ''11a8,9437,b672,2632,856a,aba5,067b,0370,8194,495b,8059,2314'' \<and>
   new_game_desc \<lparr>ncolours = 4, ntubes = 6, nlayers = 4, hiddenlayers = False\<rparr> (\<lambda>tube layer. 0)
     = Inr ''0000,1111,2222,3333,,''"
proof -
  have "solved_desc \<lparr>ncolours = 4, ntubes = 6, nlayers = 4, hiddenlayers = False\<rparr>
          = ''0000,1111,2222,3333,,''"
    by code_simp
  then show ?thesis
    using new_game_desc_cases
            [of "\<lparr>ncolours = 12, ntubes = 14, nlayers = 4, hiddenlayers = False\<rparr>" "\<lambda>tube layer. 0"]
          new_game_desc_cases
            [of "\<lparr>ncolours = 4, ntubes = 6, nlayers = 4, hiddenlayers = False\<rparr>" "\<lambda>tube layer. 0"]
    by (simp add: validate_params_def MAX_COLOURS_def MAX_LAYERS_def MAX_TUBES_def)
qed


section \<open>Net: masks, directions and offsets\<close>

lemma dir_cases: "d \<in> set dirs \<Longrightarrow> d = R \<or> d = U \<or> d = L \<or> d = D"
  by (auto simp: dirs_def R_def U_def L_def D_def)

lemma dirs_are: "set dirs = {R, U, L, D}"
  by (auto simp: dirs_def R_def U_def L_def D_def)

lemma F_dirs [simp]: "F R = L" "F U = D" "F L = R" "F D = U"
  by (simp_all add: F_def R_def U_def L_def D_def)

lemma A_dirs [simp]: "A R = U" "A U = L" "A L = D" "A D = R"
  by (simp_all add: A_def R_def U_def L_def D_def)

lemma dirs_distinct [simp]:
  "R \<noteq> U" "R \<noteq> L" "R \<noteq> D" "U \<noteq> R" "U \<noteq> L" "U \<noteq> D"
  "L \<noteq> R" "L \<noteq> U" "L \<noteq> D" "D \<noteq> R" "D \<noteq> U" "D \<noteq> L"
  "R \<noteq> 0" "U \<noteq> 0" "L \<noteq> 0" "D \<noteq> 0"
  by (simp_all add: R_def U_def L_def D_def)

lemma F_in_dirs: "d \<in> set dirs \<Longrightarrow> F d \<in> set dirs \<and> F (F d) = d \<and> F d \<noteq> d"
  by (auto simp: dirs_are)

lemma A_in_dirs:
  "d \<in> set dirs \<Longrightarrow> A d \<in> set dirs \<and> A (A d) = F d \<and> A d \<noteq> d \<and> A d \<noteq> F d
     \<and> A (F d) = F (A d)"
  by (auto simp: dirs_are)

lemma XY_dirs [simp]:
  "X R = 1" "X L = - 1" "X U = 0" "X D = 0" "Y D = 1" "Y U = - 1" "Y R = 0" "Y L = 0"
  by (simp_all add: X_def Y_def)

lemma mask_facts_enum:
  "\<forall>t\<in>set nibbles. \<forall>d\<in>set dirs.
     is_mask (t OR d) \<and> (t OR d) \<noteq> 0 \<and> (t OR d) AND d \<noteq> 0 \<and>
     (t AND d = 0 \<longrightarrow> COUNT (t OR d) = COUNT t + 1) \<and>
     (t AND d \<noteq> 0 \<longrightarrow> t OR d = t) \<and>
     (COUNT t = 3 \<and> t AND d = 0 \<longrightarrow> d = 15 XOR t) \<and>
     (COUNT t \<le> 3 \<longrightarrow> t \<noteq> 15) \<and> 0 \<le> COUNT t \<and>
     (\<forall>e\<in>set dirs. (t OR d) AND e \<noteq> 0 \<longleftrightarrow> t AND e \<noteq> 0 \<or> e = d)"
  by (simp add: nibbles_def dirs_def COUNT_def is_mask_def)

lemma mask_zero_enum:
  "\<forall>t\<in>set nibbles. (t = 0 \<longleftrightarrow> (\<forall>d\<in>set dirs. t AND d = 0)) \<and> (t = 0 \<longrightarrow> COUNT t = 0)
      \<and> (COUNT t = 3 \<longrightarrow> 15 XOR t \<in> set dirs \<and> t AND (15 XOR t) = 0)"
  by (simp add: nibbles_def dirs_def COUNT_def)

lemma mask_in_nibbles: "is_mask t \<Longrightarrow> t \<in> set nibbles"
  unfolding is_mask_def by (simp add: nibble_cases)

lemma mask_or:
  assumes "is_mask t" and "d \<in> set dirs"
  shows "is_mask (t OR d)" and "t OR d \<noteq> 0" and "(t OR d) AND d \<noteq> 0"
    and "t AND d = 0 \<Longrightarrow> COUNT (t OR d) = COUNT t + 1"
    and "t AND d \<noteq> 0 \<Longrightarrow> t OR d = t"
    and "COUNT t = 3 \<Longrightarrow> t AND d = 0 \<Longrightarrow> d = 15 XOR t"
    and "COUNT t \<le> 3 \<Longrightarrow> t \<noteq> 15" and "0 \<le> COUNT t"
    and "e \<in> set dirs \<Longrightarrow> (t OR d) AND e \<noteq> 0 \<longleftrightarrow> t AND e \<noteq> 0 \<or> e = d"
  using mask_facts_enum mask_in_nibbles [OF assms(1)] assms(2) by blast+

lemma mask_zero:
  assumes "is_mask t"
  shows "t = 0 \<longleftrightarrow> (\<forall>d\<in>set dirs. t AND d = 0)"
    and "COUNT t = 3 \<Longrightarrow> 15 XOR t \<in> set dirs \<and> t AND (15 XOR t) = 0"
  using mask_zero_enum mask_in_nibbles [OF assms] by blast+

subsection \<open>Offsets on the grid\<close>

lemma succ_mod: "0 < w \<Longrightarrow> nat ((int x + int w + 1) mod int w) = Suc x mod w"
  by (metis add.commute mod_add_self1 nat_int of_nat_Suc of_nat_mod add.assoc)

lemma pred_mod: "0 < w \<Longrightarrow> nat ((int x + int w - 1) mod int w) = (x + w - Suc 0) mod w"
proof -
  assume "0 < w"
  then have "int x + int w - 1 = int (x + w - Suc 0)" by (simp add: of_nat_diff)
  then show ?thesis by (metis nat_int of_nat_mod)
qed

lemma same_mod: "x < w \<Longrightarrow> nat ((int x + int w + 0) mod int w) = x"
  by (simp add: nat_mod_distrib)

lemma OFFSET_R: "0 < width s \<Longrightarrow> y < height s \<Longrightarrow> OFFSET x y R s = (Suc x mod width s, y)"
  by (simp add: OFFSET_def succ_mod same_mod)

lemma OFFSET_L: "0 < width s \<Longrightarrow> y < height s
    \<Longrightarrow> OFFSET x y L s = ((x + width s - 1) mod width s, y)"
  by (simp add: OFFSET_def pred_mod same_mod)

lemma OFFSET_D: "0 < height s \<Longrightarrow> x < width s \<Longrightarrow> OFFSET x y D s = (x, Suc y mod height s)"
  by (simp add: OFFSET_def succ_mod same_mod)

lemma OFFSET_U: "0 < height s \<Longrightarrow> x < width s
    \<Longrightarrow> OFFSET x y U s = (x, (y + height s - 1) mod height s)"
  by (simp add: OFFSET_def pred_mod same_mod)

lemma mod_succ_pred: "x < w \<Longrightarrow> (Suc x mod w + w - Suc 0) mod w = (x::nat)"
  by (cases "Suc x = w") (auto simp: mod_Suc)

lemma mod_pred_succ: "x < w \<Longrightarrow> Suc ((x + w - Suc 0) mod w) mod w = (x::nat)"
proof (cases x)
  case 0
  assume "x < w"
  then show ?thesis using 0 by (cases w) auto
next
  case (Suc n)
  assume "x < w"
  then have "(x + w - 1) mod w = n" using Suc by (simp add: mod_add_self2)
  then show ?thesis using Suc \<open>x < w\<close> by simp
qed


section \<open>Net: neighbours and the masks after a connection\<close>

lemma neighbour_R:
  "0 < width s \<Longrightarrow> snd c < height s \<Longrightarrow> neighbour s c R = (Suc (fst c) mod width s, snd c)"
  by (simp add: neighbour_def OFFSET_R)

lemma neighbour_L:
  "0 < width s \<Longrightarrow> snd c < height s
     \<Longrightarrow> neighbour s c L = ((fst c + width s - 1) mod width s, snd c)"
  by (simp add: neighbour_def OFFSET_L)

lemma neighbour_D:
  "0 < height s \<Longrightarrow> fst c < width s \<Longrightarrow> neighbour s c D = (fst c, Suc (snd c) mod height s)"
  by (simp add: neighbour_def OFFSET_D)

lemma neighbour_U:
  "0 < height s \<Longrightarrow> fst c < width s
     \<Longrightarrow> neighbour s c U = (fst c, (snd c + height s - 1) mod height s)"
  by (simp add: neighbour_def OFFSET_U)

lemma neighbour_in_cells:
  assumes "0 < width s" and "0 < height s"
  shows "in_cells s (neighbour s c d)"
  using OFFSET_in_grid [OF assms, of "fst c" "snd c" d]
  by (cases "OFFSET (fst c) (snd c) d s") (simp add: neighbour_def in_cells_def)

lemma neighbour_back:
  assumes "in_cells s c" and "d \<in> set dirs"
  shows "neighbour s (neighbour s c d) (F d) = c"
proof -
  have w: "0 < width s" "0 < height s" "fst c < width s" "snd c < height s"
    using assms(1) by (auto simp: in_cells_def)
  from dir_cases [OF assms(2)] show ?thesis
  proof (elim disjE)
    assume "d = R"
    then show ?thesis
      using w by (simp add: neighbour_R neighbour_L mod_succ_pred)
  next
    assume "d = U"
    then show ?thesis
      using w by (simp add: neighbour_U neighbour_D mod_pred_succ)
  next
    assume "d = L"
    then show ?thesis
      using w by (simp add: neighbour_R neighbour_L mod_pred_succ)
  next
    assume "d = D"
    then show ?thesis
      using w by (simp add: neighbour_U neighbour_D mod_succ_pred)
  qed
qed

lemma index_inj:
  assumes "in_cells s c" and "in_cells s c'"
    and "index s (fst c) (snd c) = index s (fst c') (snd c')"
  shows "c = c'"
proof -
  let ?w = "width s"
  have lt: "fst c < ?w" "fst c' < ?w" using assms(1,2) by (auto simp: in_cells_def)
  have eq: "snd c * ?w + fst c = snd c' * ?w + fst c'"
    using assms(3) by (simp add: index_def)
  have "(snd c * ?w + fst c) div ?w = snd c" "(snd c' * ?w + fst c') div ?w = snd c'"
    using lt by simp_all
  then have "snd c = snd c'" using eq by simp
  then have "fst c = fst c'" using eq by simp
  then show ?thesis using \<open>snd c = snd c'\<close> by (simp add: prod_eq_iff)
qed

lemma index_lt:
  assumes "in_cells s c"
  shows "index s (fst c) (snd c) < width s * height s"
  using assms index_in_range by (simp add: in_cells_def)

lemma tile_or_grid [simp]:
  "width (tile_or s x y v) = width s" "height (tile_or s x y v) = height s"
  "cx (tile_or s x y v) = cx s" "cy (tile_or s x y v) = cy s"
  "wrapping (tile_or s x y v) = wrapping s" "barriers (tile_or s x y v) = barriers s"
  "length (tiles (tile_or s x y v)) = length (tiles s)"
  by (simp_all add: tile_or_def)

lemma tile_or_same_grid [simp]:
  "in_cells (tile_or s x y v) = in_cells s"
  "neighbour (tile_or s x y v) = neighbour s"
  "exits (tile_or s x y v) = exits s"
  "centre (tile_or s x y v) = centre s"
  "index (tile_or s x y v) = index s"
  by (auto simp: fun_eq_iff in_cells_def neighbour_def OFFSET_def exits_def centre_def
      index_def)

lemma mask_tile_or:
  assumes "length (tiles s) = width s * height s" and "in_cells s c" and "in_cells s c'"
  shows "mask_at (tile_or s (fst c) (snd c) v) c' = (if c' = c then mask_at s c OR v else mask_at s c')"
proof (cases "c' = c")
  case True
  then show ?thesis
    using index_lt [OF assms(2)] assms(1)
    by (simp add: mask_at_def tile_def tile_or_def index_def)
next
  case False
  then have "snd c * width s + fst c \<noteq> snd c' * width s + fst c'"
    using index_inj [OF assms(2,3)] by (auto simp: index_def)
  then show ?thesis
    using False by (simp add: mask_at_def tile_def tile_or_def index_def)
qed

lemma connect_grid [simp]:
  "width (connect s c d) = width s" "height (connect s c d) = height s"
  "cx (connect s c d) = cx s" "cy (connect s c d) = cy s"
  "wrapping (connect s c d) = wrapping s" "barriers (connect s c d) = barriers s"
  "length (tiles (connect s c d)) = length (tiles s)"
  "in_cells (connect s c d) = in_cells s"
  "neighbour (connect s c d) = neighbour s"
  "exits (connect s c d) = exits s"
  "centre (connect s c d) = centre s"
  by (simp_all add: connect_def Let_def)

lemma grid_okD:
  assumes "grid_ok s"
  shows "0 < width s" and "0 < height s" and "length (tiles s) = width s * height s"
    and "in_cells s (centre s)" and "in_cells s (neighbour s c d)"
  using assms neighbour_in_cells [of s c d]
  by (auto simp: grid_ok_def in_cells_def centre_def)

lemma grid_ok_mask:
  assumes "grid_ok s" and "in_cells s c"
  shows "is_mask (mask_at s c)"
  using assms unfolding grid_ok_def by blast

text \<open>The masks after a connection from a used cell into an unused one.\<close>

lemma mask_connect:
  assumes "grid_ok s" and "in_cells s c1" and "used s c1"
    and "\<not> used s (neighbour s c1 d1)" and "in_cells s c"
  shows "mask_at (connect s c1 d1) c =
           (if c = c1 then mask_at s c1 OR d1
            else if c = neighbour s c1 d1 then F d1
            else mask_at s c)"
proof -
  let ?c2 = "neighbour s c1 d1"
  let ?s1 = "tile_or s (fst c1) (snd c1) d1"
  have c2: "in_cells s ?c2" using assms(1) by (rule grid_okD)
  have ne: "?c2 \<noteq> c1" using assms(3,4) by auto
  have z: "mask_at s ?c2 = 0" using assms(4) by (simp add: used_def)
  have len: "length (tiles s) = width s * height s" using assms(1) by (rule grid_okD)
  have m1: "\<And>c'. in_cells s c' \<Longrightarrow> mask_at ?s1 c' = (if c' = c1 then mask_at s c1 OR d1 else mask_at s c')"
    using mask_tile_or [OF len assms(2)] by simp
  have len1: "length (tiles ?s1) = width ?s1 * height ?s1" using len by simp
  have "mask_at (tile_or ?s1 (fst ?c2) (snd ?c2) (F d1)) c
          = (if c = ?c2 then mask_at ?s1 ?c2 OR F d1 else mask_at ?s1 c)"
    using mask_tile_or [OF len1, of ?c2 c "F d1"] c2 assms(5) by simp
  moreover have "mask_at ?s1 c = (if c = c1 then mask_at s c1 OR d1 else mask_at s c)"
    using m1 [OF assms(5)] .
  moreover have "mask_at ?s1 ?c2 = 0"
    using m1 [OF c2] ne z by simp
  ultimately show ?thesis
    using ne by (auto simp: connect_def Let_def)
qed


section \<open>Net: one pipe more\<close>

lemma pipe_stepD:
  assumes "pipe_step s c1 d1"
  shows "grid_ok s" and "reciprocal s" and "in_cells s c1" and "d1 \<in> set dirs"
    and "used s c1" and "\<not> used s (neighbour s c1 d1)"
    and "in_cells s (neighbour s c1 d1)" and "mask_at s (neighbour s c1 d1) = 0"
    and "neighbour s c1 d1 \<noteq> c1" and "neighbour s c1 d1 \<noteq> centre s"
    and "is_mask (mask_at s c1)"
  using assms grid_okD(5) [of s c1 d1] grid_ok_mask [of s c1]
  by (auto simp: pipe_step_def used_def)

lemma pipe_step_fresh_bit:
  assumes "pipe_step s c1 d1"
  shows "mask_at s c1 AND d1 = 0"
proof -
  have "mask_at s (neighbour s c1 d1) AND F d1 = 0"
    using pipe_stepD(8) [OF assms] by simp
  then show ?thesis
    using pipe_stepD(2,3,4) [OF assms] unfolding reciprocal_def by blast
qed

lemma mask_after:
  assumes "pipe_step s c1 d1" and "in_cells s c"
  shows "mask_at (connect s c1 d1) c =
           (if c = c1 then mask_at s c1 OR d1
            else if c = neighbour s c1 d1 then F d1
            else mask_at s c)"
  using mask_connect [OF pipe_stepD(1,3,5,6) [OF assms(1)] assms(2)] .

lemma dir_is_mask: "d \<in> set dirs \<Longrightarrow> is_mask d \<and> d \<noteq> 0"
  by (auto simp: dirs_def is_mask_def)

lemma grid_ok_after:
  assumes "pipe_step s c1 d1"
  shows "grid_ok (connect s c1 d1)"
proof -
  note st = pipe_stepD [OF assms]
  have "is_mask (mask_at (connect s c1 d1) c)" if "in_cells s c" for c
    using mask_after [OF assms that] mask_or(1) [OF st(11) st(4)]
      dir_is_mask [of "F d1"] F_in_dirs [OF st(4)] grid_ok_mask [OF st(1) that]
    by auto
  then show ?thesis
    using st(1) by (simp add: grid_ok_def)
qed

lemma used_after:
  assumes "pipe_step s c1 d1" and "in_cells s c"
  shows "used (connect s c1 d1) c \<longleftrightarrow> used s c \<or> c = neighbour s c1 d1"
proof -
  note st = pipe_stepD [OF assms(1)]
  have "mask_at s c1 OR d1 \<noteq> 0" using mask_or(2) [OF st(11) st(4)] .
  moreover have "F d1 \<noteq> 0" using dir_is_mask [of "F d1"] F_in_dirs [OF st(4)] by simp
  ultimately show ?thesis
    using mask_after [OF assms] st(5) by (auto simp: used_def)
qed

lemma bits_grow:
  assumes "pipe_step s c1 d1" and "in_cells s c" and "d \<in> set dirs"
    and "mask_at s c AND d \<noteq> 0"
  shows "mask_at (connect s c1 d1) c AND d \<noteq> 0"
proof -
  note st = pipe_stepD [OF assms(1)]
  have "c \<noteq> neighbour s c1 d1" using assms(4) st(8) by auto
  then show ?thesis
    using mask_after [OF assms(1,2)] mask_or(9) [OF st(11) st(4) assms(3)] assms(4)
    by auto
qed

lemma bits_after:
  assumes "pipe_step s c1 d1" and "in_cells s c" and "d \<in> set dirs"
  shows "mask_at (connect s c1 d1) c AND d \<noteq> 0 \<longleftrightarrow>
           mask_at s c AND d \<noteq> 0 \<or> (c = c1 \<and> d = d1) \<or> (c = neighbour s c1 d1 \<and> d = F d1)"
proof -
  note st = pipe_stepD [OF assms(1)]
  let ?c2 = "neighbour s c1 d1"
  have fd: "F d1 \<in> set dirs" using F_in_dirs [OF st(4)] by simp
  have z: "is_mask 0" by (simp add: is_mask_def)
  show ?thesis
  proof (cases "c = c1")
    case True
    then show ?thesis
      using mask_after [OF assms(1,2)] mask_or(9) [OF st(11) st(4) assms(3)] st(9) by auto
  next
    case False
    show ?thesis
    proof (cases "c = ?c2")
      case True
      have "(0 OR F d1) AND d \<noteq> 0 \<longleftrightarrow> 0 AND d \<noteq> 0 \<or> d = F d1"
        using mask_or(9) [OF z fd assms(3)] .
      then show ?thesis
        using True False mask_after [OF assms(1,2)] st(8) by simp
    next
      case c2: False
      then show ?thesis
        using False mask_after [OF assms(1,2)] by simp
    qed
  qed
qed

lemma reciprocal_after:
  assumes "pipe_step s c1 d1"
  shows "reciprocal (connect s c1 d1)"
  unfolding reciprocal_def
proof (intro allI impI)
  fix c d
  let ?s' = "connect s c1 d1"
  let ?c2 = "neighbour s c1 d1"
  assume a: "in_cells ?s' c \<and> d \<in> set dirs"
  note st = pipe_stepD [OF assms]
  have c: "in_cells s c" and d: "d \<in> set dirs" using a by simp_all
  have n: "in_cells s (neighbour s c d)" using st(1) by (rule grid_okD)
  have fd: "F d \<in> set dirs" "F (F d) = d" using F_in_dirs [OF d] by simp_all
  have ret: "neighbour s (neighbour s c d) (F d) = c" using neighbour_back [OF c d] .
  have ret1: "neighbour s ?c2 (F d1) = c1" using neighbour_back [OF st(3,4)] .
  have old: "mask_at s c AND d \<noteq> 0 \<longleftrightarrow> mask_at s (neighbour s c d) AND F d \<noteq> 0"
    using st(2) c d unfolding reciprocal_def by blast
  have e1: "(c = c1 \<and> d = d1) \<longleftrightarrow> (neighbour s c d = ?c2 \<and> F d = F d1)"
    using ret ret1 fd(2) F_in_dirs [OF st(4)] by metis
  have e2: "(c = ?c2 \<and> d = F d1) \<longleftrightarrow> (neighbour s c d = c1 \<and> F d = F (F d1))"
    using ret ret1 fd(2) F_in_dirs [OF st(4)] by metis
  show "mask_at ?s' c AND d \<noteq> 0 \<longleftrightarrow> mask_at ?s' (neighbour ?s' c d) AND F d \<noteq> 0"
    using bits_after [OF assms c d] bits_after [OF assms n fd(1)] old e1 e2
      F_in_dirs [OF st(4)]
    by auto
qed

subsection \<open>Moves that stay on the grid\<close>

lemma exits_R: "\<not> wrapping s \<Longrightarrow> in_cells s c \<Longrightarrow> exits s c R \<longleftrightarrow> Suc (fst c) < width s"
  by (auto simp: exits_def in_cells_def)

lemma exits_L: "\<not> wrapping s \<Longrightarrow> exits s c L \<longleftrightarrow> 0 < fst c"
  by (auto simp: exits_def)

lemma exits_D: "\<not> wrapping s \<Longrightarrow> in_cells s c \<Longrightarrow> exits s c D \<longleftrightarrow> Suc (snd c) < height s"
  by (auto simp: exits_def in_cells_def)

lemma exits_U: "\<not> wrapping s \<Longrightarrow> exits s c U \<longleftrightarrow> 0 < snd c"
  by (auto simp: exits_def)

lemma exits_wrapping: "wrapping s \<Longrightarrow> exits s c d"
  by (simp add: exits_def)

lemma pred_in: "0 < x \<Longrightarrow> x < w \<Longrightarrow> (x + w - Suc 0) mod w = x - Suc 0"
proof -
  assume a: "0 < x" "x < w"
  then have "x + w - Suc 0 = (x - Suc 0) + w" by simp
  then have "(x + w - Suc 0) mod w = ((x - Suc 0) + w) mod w" by (rule arg_cong)
  also have "\<dots> = (x - Suc 0) mod w" by (rule mod_add_self2)
  also have "\<dots> = x - Suc 0" using a by simp
  finally show ?thesis .
qed

lemma neighbour_inside:
  assumes "\<not> wrapping s" and "in_cells s c"
  shows "exits s c R \<Longrightarrow> neighbour s c R = (Suc (fst c), snd c)"
    and "exits s c L \<Longrightarrow> neighbour s c L = (fst c - Suc 0, snd c)"
    and "exits s c D \<Longrightarrow> neighbour s c D = (fst c, Suc (snd c))"
    and "exits s c U \<Longrightarrow> neighbour s c U = (fst c, snd c - Suc 0)"
proof -
  have w: "0 < width s" "0 < height s" "fst c < width s" "snd c < height s"
    using assms(2) by (auto simp: in_cells_def)
  show "exits s c R \<Longrightarrow> neighbour s c R = (Suc (fst c), snd c)"
    using w exits_R [OF assms] by (simp add: neighbour_R)
  show "exits s c L \<Longrightarrow> neighbour s c L = (fst c - Suc 0, snd c)"
    using w exits_L [OF assms(1)] by (simp add: neighbour_L pred_in)
  show "exits s c D \<Longrightarrow> neighbour s c D = (fst c, Suc (snd c))"
    using w exits_D [OF assms] by (simp add: neighbour_D)
  show "exits s c U \<Longrightarrow> neighbour s c U = (fst c, snd c - Suc 0)"
    using w exits_U [OF assms(1)] by (simp add: neighbour_U pred_in)
qed

lemma exits_back:
  assumes "in_cells s c" and "d \<in> set dirs" and "exits s c d"
  shows "exits s (neighbour s c d) (F d)"
proof (cases "wrapping s")
  case True
  then show ?thesis by (rule exits_wrapping)
next
  case False
  have w: "0 < width s" "0 < height s" "fst c < width s" "snd c < height s"
    using assms(1) by (auto simp: in_cells_def)
  have n: "in_cells s (neighbour s c d)" using w(1,2) by (rule neighbour_in_cells)
  from dir_cases [OF assms(2)] show ?thesis
  proof (elim disjE)
    assume "d = R"
    then show ?thesis
      using neighbour_inside(1) [OF False assms(1)] assms(3) exits_L [OF False] by simp
  next
    assume "d = U"
    then show ?thesis
      using neighbour_inside(4) [OF False assms(1)] assms(3) exits_U [OF False, of c]
        exits_D [OF False n] w by simp
  next
    assume "d = L"
    then show ?thesis
      using neighbour_inside(2) [OF False assms(1)] assms(3) exits_L [OF False, of c]
        exits_R [OF False n] w by simp
  next
    assume "d = D"
    then show ?thesis
      using neighbour_inside(3) [OF False assms(1)] assms(3) exits_U [OF False] by simp
  qed
qed

subsection \<open>The invariant after a connection\<close>

lemma bits_exit_after:
  assumes "pipe_step s c1 d1" and "bits_exit s" and "exits s c1 d1"
  shows "bits_exit (connect s c1 d1)"
  unfolding bits_exit_def
proof (intro allI impI)
  fix c d
  assume a: "in_cells (connect s c1 d1) c \<and> d \<in> set dirs \<and>
             mask_at (connect s c1 d1) c AND d \<noteq> 0"
  note st = pipe_stepD [OF assms(1)]
  have c: "in_cells s c" and d: "d \<in> set dirs" using a by simp_all
  have "mask_at s c AND d \<noteq> 0 \<or> (c = c1 \<and> d = d1) \<or> (c = neighbour s c1 d1 \<and> d = F d1)"
    using bits_after [OF assms(1) c d] a by simp
  moreover have "exits s (neighbour s c1 d1) (F d1)"
    using exits_back [OF st(3,4) assms(3)] .
  ultimately have "exits s c d"
    using assms(2,3) c d unfolding bits_exit_def by blast
  then show "exits (connect s c1 d1) c d" by simp
qed

lemma centre_first_after:
  assumes "pipe_step s c1 d1" and "centre_first s"
  shows "mask_at (connect s c1 d1) (centre s) \<noteq> 0"
proof -
  note st = pipe_stepD [OF assms(1)]
  have cen: "in_cells s (centre s)" using st(1) by (rule grid_okD)
  have or_ne: "mask_at s c1 OR d1 \<noteq> 0" using mask_or(2) [OF st(11) st(4)] .
  show ?thesis
  proof (cases "mask_at s (centre s) = 0")
    case True
    then have "mask_at s c1 = 0" using assms(2) st(3) unfolding centre_first_def by blast
    then have "c1 = centre s" using st(5) by (simp add: used_def)
    then show ?thesis using mask_after [OF assms(1) cen] or_ne by simp
  next
    case False
    then show ?thesis
      using mask_after [OF assms(1) cen] or_ne st(10) by auto
  qed
qed

lemma reachable_in_cells:
  assumes "grid_ok s" and "reachable s c"
  shows "in_cells s c"
  using assms(2)
proof (induction rule: reachable.induct)
  case reachable_centre
  show ?case using assms(1) by (rule grid_okD)
next
  case (reachable_step c d)
  show ?case using assms(1) by (rule grid_okD)
qed

lemma linked_after:
  assumes "pipe_step s c1 d1" and "in_cells s c" and "linked s c d"
  shows "linked (connect s c1 d1) c d"
proof -
  note st = pipe_stepD [OF assms(1)]
  have d: "d \<in> set dirs" using assms(3) by (simp add: linked_def)
  have n: "in_cells s (neighbour s c d)" using st(1) by (rule grid_okD)
  have "mask_at (connect s c1 d1) c AND d \<noteq> 0"
    using bits_grow [OF assms(1,2) d] assms(3) by (simp add: linked_def)
  moreover have "mask_at (connect s c1 d1) (neighbour s c d) AND F d \<noteq> 0"
    using bits_grow [OF assms(1) n] F_in_dirs [OF d] assms(3) by (simp add: linked_def)
  ultimately show ?thesis using d by (simp add: linked_def)
qed

lemma reachable_mono:
  assumes "pipe_step s c1 d1" and "reachable s c"
  shows "reachable (connect s c1 d1) c"
  using assms(2)
proof (induction rule: reachable.induct)
  case reachable_centre
  have "reachable (connect s c1 d1) (centre (connect s c1 d1))"
    by (rule reachable.reachable_centre)
  then show ?case by simp
next
  case (reachable_step c d)
  have "in_cells s c"
    using reachable_in_cells [OF pipe_stepD(1) [OF assms(1)] reachable_step.hyps(1)] .
  then have "linked (connect s c1 d1) c d"
    using linked_after [OF assms(1)] reachable_step.hyps(2) by simp
  with reachable_step.IH
  have "reachable (connect s c1 d1) (neighbour (connect s c1 d1) c d)"
    by (rule reachable.reachable_step)
  then show ?case by simp
qed

lemma reachable_after:
  assumes "pipe_step s c1 d1"
    and "\<forall>c. in_cells s c \<and> used s c \<longrightarrow> reachable s c"
    and "in_cells s c" and "used (connect s c1 d1) c"
  shows "reachable (connect s c1 d1) c"
proof (cases "c = neighbour s c1 d1")
  case True
  note st = pipe_stepD [OF assms(1)]
  let ?s' = "connect s c1 d1"
  have r1: "reachable ?s' c1"
    using reachable_mono [OF assms(1)] assms(2) st(3,5) by blast
  have fd: "F d1 \<in> set dirs" "F (F d1) = d1" using F_in_dirs [OF st(4)] by simp_all
  have "mask_at ?s' c1 AND d1 \<noteq> 0"
    using bits_after [OF assms(1) st(3,4)] by simp
  moreover have "mask_at ?s' (neighbour s c1 d1) AND F d1 \<noteq> 0"
    using bits_after [OF assms(1) st(7) fd(1)] by simp
  ultimately have "linked ?s' c1 d1" using st(4) by (simp add: linked_def)
  with r1 have "reachable ?s' (neighbour ?s' c1 d1)" by (rule reachable.reachable_step)
  then show ?thesis using True by simp
next
  case False
  then have "used s c" using used_after [OF assms(1,3)] assms(4) by simp
  then show ?thesis using reachable_mono [OF assms(1)] assms(2,3) by blast
qed


section \<open>Net: the order of use, pipes and used cells\<close>

lemma reciprocalD:
  assumes "reciprocal s" and "in_cells s c" and "d \<in> set dirs"
  shows "mask_at s c AND d \<noteq> 0 \<longleftrightarrow> mask_at s (neighbour s c d) AND F d \<noteq> 0"
  using assms unfolding reciprocal_def by blast

lemma rankedD:
  assumes "ranked s rank n"
  shows "in_cells s c \<Longrightarrow> used s c \<Longrightarrow> rank c < n"
    and "in_cells s c \<Longrightarrow> d \<in> set dirs \<Longrightarrow> mask_at s c AND d \<noteq> 0
           \<Longrightarrow> rank (neighbour s c d) \<noteq> rank c"
    and "in_cells s c \<Longrightarrow> d \<in> set dirs \<Longrightarrow> d' \<in> set dirs \<Longrightarrow>
         mask_at s c AND d \<noteq> 0 \<Longrightarrow> mask_at s c AND d' \<noteq> 0 \<Longrightarrow>
         rank (neighbour s c d) < rank c \<Longrightarrow> rank (neighbour s c d') < rank c \<Longrightarrow> d = d'"
  using assms unfolding ranked_def by blast+

lemma old_bit_old_cells:
  assumes "pipe_step s c1 d1" and "in_cells s c" and "d \<in> set dirs"
    and "mask_at s c AND d \<noteq> 0"
  shows "c \<noteq> neighbour s c1 d1" and "neighbour s c d \<noteq> neighbour s c1 d1"
proof -
  note st = pipe_stepD [OF assms(1)]
  show "c \<noteq> neighbour s c1 d1" using assms(4) st(8) by auto
  have "mask_at s (neighbour s c d) AND F d \<noteq> 0"
    using reciprocalD [OF st(2) assms(2,3)] assms(4) by simp
  then show "neighbour s c d \<noteq> neighbour s c1 d1" using st(8) by auto
qed

lemma ranked_after:
  assumes "pipe_step s c1 d1" and "ranked s rank n"
  shows "ranked (connect s c1 d1) (rank(neighbour s c1 d1 := n)) (Suc n)"
proof -
  note st = pipe_stepD [OF assms(1)]
  let ?s' = "connect s c1 d1"
  let ?c2 = "neighbour s c1 d1"
  let ?r = "rank(?c2 := n)"
  have r1: "rank c1 < n" using rankedD(1) [OF assms(2) st(3,5)] .
  have fd: "F d1 \<in> set dirs" "F (F d1) = d1" using F_in_dirs [OF st(4)] by simp_all
  have ret1: "neighbour s ?c2 (F d1) = c1" using neighbour_back [OF st(3,4)] .
  have p1: "?r c < Suc n" if "in_cells ?s' c" "used ?s' c" for c
  proof (cases "c = ?c2")
    case True
    then show ?thesis by simp
  next
    case False
    then have "used s c" using used_after [OF assms(1)] that by simp
    then have "rank c < n" using rankedD(1) [OF assms(2)] that(1) by simp
    then show ?thesis using False by simp
  qed
  have p2: "?r (neighbour ?s' c d) \<noteq> ?r c"
    if "in_cells ?s' c" "d \<in> set dirs" "mask_at ?s' c AND d \<noteq> 0" for c d
  proof -
    have c: "in_cells s c" using that(1) by simp
    from bits_after [OF assms(1) c that(2)] that(3)
    consider "mask_at s c AND d \<noteq> 0" | "c = c1 \<and> d = d1" | "c = ?c2 \<and> d = F d1"
      by blast
    then show ?thesis
    proof cases
      case 1
      then show ?thesis
        using old_bit_old_cells [OF assms(1) c that(2)] rankedD(2) [OF assms(2) c that(2)]
        by simp
    next
      case 2
      then show ?thesis using r1 st(9) by simp
    next
      case 3
      then show ?thesis using r1 st(9) ret1 by simp
    qed
  qed
  have p3: "d = d'"
    if "in_cells ?s' c" "d \<in> set dirs" "d' \<in> set dirs"
      "mask_at ?s' c AND d \<noteq> 0" "mask_at ?s' c AND d' \<noteq> 0"
      "?r (neighbour ?s' c d) < ?r c" "?r (neighbour ?s' c d') < ?r c" for c d d'
  proof (cases "c = ?c2")
    case True
    have "d = F d1" using bits_after [OF assms(1) st(7) that(2)] that(4) True st(8,9) by auto
    moreover have "d' = F d1"
      using bits_after [OF assms(1) st(7) that(3)] that(5) True st(8,9) by auto
    ultimately show ?thesis by simp
  next
    case False
    have c: "in_cells s c" using that(1) by simp
    have old: "mask_at s c AND e \<noteq> 0 \<and> rank (neighbour s c e) < rank c"
      if e: "e \<in> set dirs" "mask_at ?s' c AND e \<noteq> 0" "?r (neighbour ?s' c e) < ?r c" for e
    proof (cases "c = c1 \<and> e = d1")
      case True
      then have "?r (neighbour ?s' c e) = n" by simp
      then show ?thesis using e(3) False rankedD(1) [OF assms(2) st(3,5)] True by simp
    next
      case ne: False
      then have b: "mask_at s c AND e \<noteq> 0"
        using bits_after [OF assms(1) c e(1)] e(2) False by auto
      then have "neighbour s c e \<noteq> ?c2"
        using old_bit_old_cells(2) [OF assms(1) c e(1)] by simp
      then show ?thesis using b e(3) False by simp
    qed
    show ?thesis
      using rankedD(3) [OF assms(2) c that(2,3)] old [OF that(2,4,6)] old [OF that(3,5,7)]
      by simp
  qed
  show ?thesis
    unfolding ranked_def using p1 p2 p3 by blast
qed

subsection \<open>Counting pipes and used cells\<close>

lemma pipes_enum:
  "\<forall>t\<in>set nibbles. \<forall>d\<in>set dirs. t AND d = 0 \<longrightarrow>
     pipes (t OR d) = pipes t + (if d = R \<or> d = D then 1 else 0)"
  by (simp add: nibbles_def dirs_def pipes_def R_def D_def)

lemma pipes_or:
  assumes "is_mask t" and "d \<in> set dirs" and "t AND d = 0"
  shows "pipes (t OR d) = pipes t + (if d = R \<or> d = D then 1 else 0)"
  using pipes_enum mask_in_nibbles [OF assms(1)] assms(2,3) by blast

lemma edge_count_tile_or:
  assumes "length (tiles s) = width s * height s" and "in_cells s c"
    and "is_mask (mask_at s c)" and "d \<in> set dirs" and "mask_at s c AND d = 0"
  shows "edge_count (tile_or s (fst c) (snd c) d)
           = edge_count s + (if d = R \<or> d = D then 1 else 0)"
proof -
  let ?k = "index s (fst c) (snd c)"
  let ?ps = "map pipes (tiles s)"
  have k: "?k < length ?ps" using index_lt [OF assms(2)] assms(1) by simp
  have t: "tiles s ! ?k = mask_at s c" by (simp add: mask_at_def tile_def)
  have "map pipes (tiles (tile_or s (fst c) (snd c) d)) = ?ps[?k := pipes (mask_at s c OR d)]"
    by (simp add: tile_or_def map_update mask_at_def)
  then have "edge_count (tile_or s (fst c) (snd c) d)
      = sum_list ?ps + pipes (mask_at s c OR d) - ?ps ! ?k"
    using sum_list_update [OF k] by (simp add: edge_count_def)
  moreover have "?ps ! ?k = pipes (mask_at s c)" using k t by simp
  ultimately show ?thesis
    using pipes_or [OF assms(3,4,5)] by (simp add: edge_count_def)
qed

lemma edge_count_after:
  assumes "pipe_step s c1 d1"
  shows "edge_count (connect s c1 d1) = Suc (edge_count s)"
proof -
  note st = pipe_stepD [OF assms]
  let ?c2 = "neighbour s c1 d1"
  let ?s1 = "tile_or s (fst c1) (snd c1) d1"
  have len: "length (tiles s) = width s * height s" using st(1) by (rule grid_okD)
  have fd: "F d1 \<in> set dirs" using F_in_dirs [OF st(4)] by simp
  have e1: "edge_count ?s1 = edge_count s + (if d1 = R \<or> d1 = D then 1 else 0)"
    using edge_count_tile_or [OF len st(3,11,4) pipe_step_fresh_bit [OF assms]] .
  have m: "mask_at ?s1 ?c2 = 0"
    using mask_tile_or [OF len st(3,7), of d1] st(8,9) by simp
  have len1: "length (tiles ?s1) = width ?s1 * height ?s1" using len by simp
  have c2: "in_cells ?s1 ?c2" using st(7) by simp
  have "edge_count (tile_or ?s1 (fst ?c2) (snd ?c2) (F d1))
          = edge_count ?s1 + (if F d1 = R \<or> F d1 = D then 1 else 0)"
    using edge_count_tile_or [OF len1 c2 _ fd] m by (simp add: is_mask_def)
  moreover have "(d1 = R \<or> d1 = D) \<noteq> (F d1 = R \<or> F d1 = D)"
    using dir_cases [OF st(4)] by auto
  ultimately show ?thesis
    using e1 by (auto simp: connect_def Let_def)
qed

lemma finite_cells: "finite {c. in_cells s c}"
proof -
  have "{c. in_cells s c} \<subseteq> {..<width s} \<times> {..<height s}"
    by (auto simp: in_cells_def)
  then show ?thesis by (rule finite_subset) simp
qed

lemma card_cells: "card {c. in_cells s c} = width s * height s"
proof -
  have "{c. in_cells s c} = {..<width s} \<times> {..<height s}"
    by (auto simp: in_cells_def)
  then show ?thesis by simp
qed

lemma used_count_after:
  assumes "pipe_step s c1 d1"
  shows "used_count (connect s c1 d1) = Suc (used_count s)"
proof -
  note st = pipe_stepD [OF assms]
  let ?U = "{c. in_cells s c \<and> used s c}"
  have "{c. in_cells (connect s c1 d1) c \<and> used (connect s c1 d1) c}
          = insert (neighbour s c1 d1) ?U"
    using used_after [OF assms] st(7) by (simp add: set_eq_iff del: split_paired_All) blast
  moreover have "neighbour s c1 d1 \<notin> ?U" using st(6) by simp
  moreover have "finite ?U" using finite_cells [of s] by simp
  ultimately show ?thesis by (simp add: used_count_def)
qed

lemma used_count_le: "used_count s \<le> width s * height s"
proof -
  have "card {c. in_cells s c \<and> used s c} \<le> card {c. in_cells s c}"
    using finite_cells [of s] by (intro card_mono) auto
  then show ?thesis by (simp add: used_count_def card_cells)
qed


section \<open>Net: the possibilities after a connection\<close>

lemma fold_find_del234:
  assumes "distinct ps"
  shows "distinct (fold (\<lambda>d t. find_del234 t (k d)) ds ps) \<and>
         set (fold (\<lambda>d t. find_del234 t (k d)) ds ps) = set ps - k ` set ds"
  using assms
proof (induction ds arbitrary: ps)
  case Nil
  then show ?case by simp
next
  case (Cons d ds)
  have d: "distinct (find_del234 ps (k d))" using Cons.prems by (rule distinct_find_del234)
  have "set (find_del234 ps (k d)) = set ps - {k d}" using Cons.prems by (rule set_find_del234)
  then show ?case using Cons.IH [OF d] by auto
qed

lemma remove_pointing_set:
  assumes "distinct ps"
  shows "distinct (remove_pointing s (fst c2) (snd c2) ps)"
    and "set (remove_pointing s (fst c2) (snd c2) ps)
           = set ps - (\<lambda>d. (fst (neighbour s c2 d), snd (neighbour s c2 d), F d)) ` set dirs"
proof -
  have "remove_pointing s (fst c2) (snd c2) ps
      = fold (\<lambda>d t. find_del234 t (fst (neighbour s c2 d), snd (neighbour s c2 d), F d)) dirs ps"
    by (simp add: remove_pointing_def neighbour_def case_prod_beta Let_def)
  then show "distinct (remove_pointing s (fst c2) (snd c2) ps)"
    and "set (remove_pointing s (fst c2) (snd c2) ps)
           = set ps - (\<lambda>d. (fst (neighbour s c2 d), snd (neighbour s c2 d), F d)) ` set dirs"
    using fold_find_del234
      [OF assms, of "\<lambda>d. (fst (neighbour s c2 d), snd (neighbour s c2 d), F d)" dirs]
    by simp_all
qed

lemma fold_add234:
  "set (fold (\<lambda>d t. if P d then add234 t (k d) else t) ds ps) = set ps \<union> k ` {d \<in> set ds. P d}"
  by (induction ds arbitrary: ps) (auto simp: set_add234)

lemma fold_add234_distinct:
  "distinct ps \<Longrightarrow> distinct (fold (\<lambda>d t. if P d then add234 t (k d) else t) ds ps)"
  by (induction ds arbitrary: ps) (auto simp: distinct_add234)

lemma add_frontier_fold:
  "add_frontier s (fst c2) (snd c2) d2 ps
     = fold (\<lambda>d t. if d \<noteq> d2 \<and> exits s c2 d \<and> mask_at s (neighbour s c2 d) = 0
                    then add234 t (fst c2, snd c2, d) else t) dirs ps"
  unfolding add_frontier_def
  by (rule arg_cong [where f = "\<lambda>f. fold f dirs ps"])
     (auto simp: fun_eq_iff exits_def neighbour_def mask_at_def new_xyd_def
        case_prod_beta Let_def)

lemma add_frontier_set:
  "set (add_frontier s (fst c2) (snd c2) d2 ps)
     = set ps \<union> (\<lambda>d. (fst c2, snd c2, d)) `
         {d \<in> set dirs. d \<noteq> d2 \<and> exits s c2 d \<and> mask_at s (neighbour s c2 d) = 0}"
  unfolding add_frontier_fold by (rule fold_add234)

lemma add_frontier_distinct:
  "distinct ps \<Longrightarrow> distinct (add_frontier s (fst c2) (snd c2) d2 ps)"
  unfolding add_frontier_fold by (rule fold_add234_distinct)

lemma next_frontier_set:
  assumes "distinct ps1"
  shows "distinct (next_frontier s c1 d1 ps1)"
    and "set (next_frontier s c1 d1 ps1) =
      (set ps1
        - (if COUNT (mask_at (connect s c1 d1) c1) = 3
           then {(fst c1, snd c1, 15 XOR mask_at (connect s c1 d1) c1)} else {})
        - (\<lambda>d. (fst (neighbour s (neighbour s c1 d1) d),
                  snd (neighbour s (neighbour s c1 d1) d), F d)) ` set dirs)
      \<union> (\<lambda>d. (fst (neighbour s c1 d1), snd (neighbour s c1 d1), d)) `
          {d \<in> set dirs. d \<noteq> F d1 \<and> exits s (neighbour s c1 d1) d \<and>
             mask_at (connect s c1 d1) (neighbour s (neighbour s c1 d1) d) = 0}"
proof -
  let ?s2 = "connect s c1 d1"
  let ?c2 = "neighbour s c1 d1"
  let ?ps2 = "if COUNT (mask_at ?s2 c1) = 3
              then find_del234 ps1 (fst c1, snd c1, 15 XOR mask_at ?s2 c1) else ps1"
  have d2: "distinct ?ps2" using assms by (simp add: distinct_find_del234)
  have s2: "set ?ps2 = set ps1 - (if COUNT (mask_at ?s2 c1) = 3
           then {(fst c1, snd c1, 15 XOR mask_at ?s2 c1)} else {})"
    using assms by (simp add: set_find_del234)
  note rp = remove_pointing_set [OF d2, of ?s2 ?c2]
  have nf: "next_frontier s c1 d1 ps1
      = add_frontier ?s2 (fst ?c2) (snd ?c2) (F d1) (remove_pointing ?s2 (fst ?c2) (snd ?c2) ?ps2)"
    by (simp add: next_frontier_def Let_def)
  show "distinct (next_frontier s c1 d1 ps1)"
    unfolding nf using rp(1) by (rule add_frontier_distinct)
  show "set (next_frontier s c1 d1 ps1) =
      (set ps1
        - (if COUNT (mask_at ?s2 c1) = 3
           then {(fst c1, snd c1, 15 XOR mask_at ?s2 c1)} else {})
        - (\<lambda>d. (fst (neighbour s ?c2 d), snd (neighbour s ?c2 d), F d)) ` set dirs)
      \<union> (\<lambda>d. (fst ?c2, snd ?c2, d)) `
          {d \<in> set dirs. d \<noteq> F d1 \<and> exits s ?c2 d \<and>
             mask_at ?s2 (neighbour s ?c2 d) = 0}"
    unfolding nf add_frontier_set rp(2) s2 by simp
qed

lemma frontier_okD:
  assumes "frontier_ok s ps" and "(x, y, d) \<in> set ps"
  shows "in_cells s (x, y)" and "d \<in> set dirs" and "exits s (x, y) d" and "used s (x, y)"
    and "\<not> used s (neighbour s (x, y) d)" and "COUNT (mask_at s (x, y)) \<le> 2"
  using assms unfolding frontier_ok_def by blast+

lemma growingD:
  assumes "growing s ps"
  shows "grid_ok s" and "reciprocal s" and "frontier_ok s ps" and "frontier_complete s ps"
    and "bits_exit s" and "centre_first s"
    and "\<forall>c. in_cells s c \<and> used s c \<longrightarrow> reachable s c"
    and "\<exists>rank n. ranked s rank n" and "edge_count s + 1 = used_count s"
    and "\<forall>c. in_cells s c \<longrightarrow> COUNT (mask_at s c) \<le> 3"
  using assms unfolding growing_def by blast+

lemma picked_step:
  assumes "picked s ps c1 d1 ps1"
  shows "pipe_step s c1 d1" and "exits s c1 d1" and "COUNT (mask_at s c1) \<le> 2"
proof -
  have g: "growing s ps" and m: "(fst c1, snd c1, d1) \<in> set ps"
    using assms by (simp_all add: picked_def)
  note f = frontier_okD [OF growingD(3) [OF g] m]
  show "pipe_step s c1 d1"
    using f growingD(1,2) [OF g] by (simp add: pipe_step_def)
  show "exits s c1 d1" using f(3) by simp
  show "COUNT (mask_at s c1) \<le> 2" using f(6) by simp
qed

lemma frontier_ok_after:
  assumes "picked s ps c1 d1 ps1"
  shows "frontier_ok (connect s c1 d1) (next_frontier s c1 d1 ps1)"
proof -
  let ?s2 = "connect s c1 d1"
  let ?c2 = "neighbour s c1 d1"
  have g: "growing s ps" and m: "(fst c1, snd c1, d1) \<in> set ps"
    and d1: "distinct ps1" and s1: "set ps1 = set ps - {(fst c1, snd c1, d1)}"
    using assms by (simp_all add: picked_def)
  note ps = picked_step [OF assms]
  note st = pipe_stepD [OF ps(1)]
  note nf = next_frontier_set [OF d1, of s c1 d1]
  have "in_cells ?s2 (x, y) \<and> d \<in> set dirs \<and> exits ?s2 (x, y) d \<and> used ?s2 (x, y) \<and>
        \<not> used ?s2 (neighbour ?s2 (x, y) d) \<and> COUNT (mask_at ?s2 (x, y)) \<le> 2"
    if a: "(x, y, d) \<in> set (next_frontier s c1 d1 ps1)" for x y d
  proof -
  have cen: "mask_at ?s2 (centre s) \<noteq> 0"
    using centre_first_after [OF ps(1) growingD(6) [OF g]] .
  have fd1: "F d1 \<in> set dirs" using F_in_dirs [OF st(4)] by simp
  show ?thesis
  proof (cases "(x, y) = ?c2 \<and> d \<in> set dirs \<and> d \<noteq> F d1 \<and> exits s ?c2 d \<and>
                mask_at ?s2 (neighbour s ?c2 d) = 0")
    case True
    have "used ?s2 ?c2" using used_after [OF ps(1) st(7)] by simp
    moreover have "\<not> used ?s2 (neighbour s ?c2 d)"
      using True cen by (auto simp: used_def)
    moreover have "mask_at ?s2 ?c2 = F d1" using mask_after [OF ps(1) st(7)] st(9) by simp
    moreover have "COUNT (F d1) \<le> 2"
      using dir_cases [OF fd1] by (auto simp: COUNT_def R_def U_def L_def D_def)
    ultimately show ?thesis using True st(7) by simp
  next
    case False
    then have old: "(x, y, d) \<in> set ps" and np: "(x, y, d) \<noteq> (fst c1, snd c1, d1)"
      and nt: "COUNT (mask_at ?s2 c1) = 3 \<longrightarrow> (x, y, d) \<noteq> (fst c1, snd c1, 15 XOR mask_at ?s2 c1)"
      and nr: "(x, y, d) \<notin> (\<lambda>d. (fst (neighbour s ?c2 d), snd (neighbour s ?c2 d), F d)) ` set dirs"
      using a unfolding nf(2) s1 by (auto split: if_splits)
    note f = frontier_okD [OF growingD(3) [OF g] old]
    have fd: "F d \<in> set dirs" "F (F d) = d" using F_in_dirs [OF f(2)] by simp_all
    have tgt: "neighbour s (x, y) d \<noteq> ?c2"
    proof
      assume e: "neighbour s (x, y) d = ?c2"
      have "neighbour s ?c2 (F d) = (x, y)" using neighbour_back [OF f(1,2)] e by simp
      then have "(x, y, d) = (fst (neighbour s ?c2 (F d)), snd (neighbour s ?c2 (F d)), F (F d))"
        using fd(2) by simp
      then show False using nr fd(1) by blast
    qed
    have n: "in_cells s (neighbour s (x, y) d)" using st(1) by (rule grid_okD)
    have u: "used ?s2 (x, y)" using used_after [OF ps(1) f(1)] f(4) by simp
    have nu: "\<not> used ?s2 (neighbour s (x, y) d)"
      using used_after [OF ps(1) n] f(5) tgt by simp
    have ne2: "(x, y) \<noteq> ?c2" using f(4) st(6) by auto
    have cnt: "COUNT (mask_at ?s2 (x, y)) \<le> 2"
    proof (cases "(x, y) = c1")
      case xy: True
      then have dd: "d \<noteq> d1" using np by auto
      have "mask_at s c1 AND d = 0"
        using reciprocalD [OF st(2,3) f(2)] f(5) xy by (auto simp: used_def)
      then have unset: "(mask_at s c1 OR d1) AND d = 0"
        using mask_or(9) [OF st(11) st(4) f(2)] dd by simp
      have m2: "mask_at ?s2 c1 = mask_at s c1 OR d1" using mask_after [OF ps(1) st(3)] by simp
      have c3: "COUNT (mask_at s c1 OR d1) = COUNT (mask_at s c1) + 1"
        using mask_or(4) [OF st(11) st(4)] pipe_step_fresh_bit [OF ps(1)] by simp
      have "COUNT (mask_at s c1 OR d1) \<noteq> 3"
      proof
        assume three: "COUNT (mask_at s c1 OR d1) = 3"
        have "is_mask (mask_at s c1 OR d1)" using mask_or(1) [OF st(11) st(4)] .
        from mask_or(6) [OF this f(2) three unset]
        have "d = 15 XOR (mask_at s c1 OR d1)" .
        then show False using nt m2 three xy by auto
      qed
      then show ?thesis using c3 ps(3) m2 xy by simp
    next
      case xy: False
      then show ?thesis using mask_after [OF ps(1) f(1)] ne2 f(6) by simp
    qed
    show ?thesis using f(1,2,3) u nu cnt by simp
  qed
  qed
  then show ?thesis
    unfolding frontier_ok_def using nf(1) by blast
qed

lemma frontier_completeD:
  assumes "frontier_complete s ps" and "in_cells s c" and "d \<in> set dirs" and "used s c"
    and "exits s c d" and "\<not> used s (neighbour s c d)"
  shows "COUNT (mask_at s c) = 3 \<or>
         (\<exists>d'\<in>set dirs. neighbour s c d' = neighbour s c d \<and> (fst c, snd c, d') \<in> set ps)"
  using assms unfolding frontier_complete_def by blast

lemma frontier_complete_after:
  assumes "picked s ps c1 d1 ps1"
  shows "frontier_complete (connect s c1 d1) (next_frontier s c1 d1 ps1)"
proof -
  let ?s2 = "connect s c1 d1"
  let ?c2 = "neighbour s c1 d1"
  have g: "growing s ps" and m: "(fst c1, snd c1, d1) \<in> set ps"
    and d1: "distinct ps1" and s1: "set ps1 = set ps - {(fst c1, snd c1, d1)}"
    using assms by (simp_all add: picked_def)
  note ps = picked_step [OF assms]
  note st = pipe_stepD [OF ps(1)]
  note nf = next_frontier_set [OF d1, of s c1 d1]
  have fd1: "F d1 \<in> set dirs" using F_in_dirs [OF st(4)] by simp
  have ret1: "neighbour s ?c2 (F d1) = c1" using neighbour_back [OF st(3,4)] .
  have u1: "used ?s2 c1" using used_after [OF ps(1) st(3)] st(5) by simp
  have "COUNT (mask_at ?s2 c) = 3 \<or>
         (\<exists>d'\<in>set dirs. neighbour s c d' = neighbour s c d \<and>
             (fst c, snd c, d') \<in> set (next_frontier s c1 d1 ps1))"
    if c: "in_cells s c" and d: "d \<in> set dirs" and u: "used ?s2 c" and e: "exits s c d"
      and nu: "\<not> used ?s2 (neighbour s c d)" for c d
  proof (cases "c = ?c2")
    case True
    have "d \<noteq> F d1" using nu u1 ret1 True by auto
    moreover have "mask_at ?s2 (neighbour s ?c2 d) = 0" using nu True by (simp add: used_def)
    ultimately have "(fst ?c2, snd ?c2, d) \<in> set (next_frontier s c1 d1 ps1)"
      unfolding nf(2) using d e True by blast
    then show ?thesis using True d by blast
  next
    case False
    have n: "in_cells s (neighbour s c d)" using st(1) by (rule grid_okD)
    have uc: "used s c" using used_after [OF ps(1) c] u False by simp
    have tgt: "neighbour s c d \<noteq> ?c2" "\<not> used s (neighbour s c d)"
      using used_after [OF ps(1) n] nu by simp_all
    from frontier_completeD [OF growingD(4) [OF g] c d uc e tgt(2)]
    show ?thesis
    proof
      assume three: "COUNT (mask_at s c) = 3"
      then have "c \<noteq> c1" using ps(3) by auto
      then have "mask_at ?s2 c = mask_at s c" using mask_after [OF ps(1) c] False by simp
      then show ?thesis using three by simp
    next
      assume "\<exists>d'\<in>set dirs. neighbour s c d' = neighbour s c d \<and> (fst c, snd c, d') \<in> set ps"
      then obtain d' where d': "d' \<in> set dirs" "neighbour s c d' = neighbour s c d"
        "(fst c, snd c, d') \<in> set ps" by blast
      have fd: "F d' \<in> set dirs" "F (F d') = d'" using F_in_dirs [OF d'(1)] by simp_all
      show ?thesis
      proof (cases "COUNT (mask_at ?s2 c1) = 3 \<and> c = c1")
        case True
        then show ?thesis by simp
      next
        case nt: False
        have a1: "(fst c, snd c, d') \<noteq> (fst c1, snd c1, d1)"
        proof
          assume "(fst c, snd c, d') = (fst c1, snd c1, d1)"
          then have "c = c1 \<and> d' = d1" by (simp add: prod_eq_iff)
          then show False using d'(2) tgt(1) by simp
        qed
        have a2: "(fst c, snd c, d') \<notin>
            (\<lambda>d. (fst (neighbour s ?c2 d), snd (neighbour s ?c2 d), F d)) ` set dirs"
        proof
          assume "(fst c, snd c, d') \<in>
            (\<lambda>d. (fst (neighbour s ?c2 d), snd (neighbour s ?c2 d), F d)) ` set dirs"
          then obtain k where k: "k \<in> set dirs" "c = neighbour s ?c2 k" "d' = F k"
            by (auto simp: prod_eq_iff)
          have "neighbour s (neighbour s ?c2 k) (F k) = ?c2"
            using neighbour_back [OF st(7) k(1)] .
          then show False using k d'(2) tgt(1) by simp
        qed
        have a3: "COUNT (mask_at ?s2 c1) = 3 \<longrightarrow>
            (fst c, snd c, d') \<noteq> (fst c1, snd c1, 15 XOR mask_at ?s2 c1)"
          using nt by (auto simp: prod_eq_iff)
        have "(fst c, snd c, d') \<in> set (next_frontier s c1 d1 ps1)"
          unfolding nf(2) s1 using d'(3) a1 a2 a3 by auto
        then show ?thesis using d'(1,2) by blast
      qed
    qed
  qed
  then show ?thesis unfolding frontier_complete_def by simp
qed

lemma growing_after:
  assumes "picked s ps c1 d1 ps1"
  shows "growing (connect s c1 d1) (next_frontier s c1 d1 ps1)"
    and "used_count (connect s c1 d1) = Suc (used_count s)"
proof -
  have g: "growing s ps" using assms by (simp add: picked_def)
  note ps = picked_step [OF assms]
  let ?s2 = "connect s c1 d1"
  have cen: "mask_at ?s2 (centre s) \<noteq> 0"
    using centre_first_after [OF ps(1) growingD(6) [OF g]] .
  then have cf: "centre_first ?s2" by (simp add: centre_first_def)
  obtain rank n where r: "ranked s rank n" using growingD(8) [OF g] by blast
  have rk: "\<exists>rank n. ranked ?s2 rank n" using ranked_after [OF ps(1) r] by blast
  have re: "\<forall>c. in_cells ?s2 c \<and> used ?s2 c \<longrightarrow> reachable ?s2 c"
    using reachable_after [OF ps(1) growingD(7) [OF g]] by simp
  have ec: "edge_count ?s2 + 1 = used_count ?s2"
    using edge_count_after [OF ps(1)] used_count_after [OF ps(1)] growingD(9) [OF g] by simp
  note st = pipe_stepD [OF ps(1)]
  have nc: "COUNT (mask_at ?s2 c) \<le> 3" if c: "in_cells s c" for c
  proof -
    have "COUNT (mask_at s c1 OR d1) = COUNT (mask_at s c1) + 1"
      using mask_or(4) [OF st(11) st(4)] pipe_step_fresh_bit [OF ps(1)] by simp
    moreover have "F d1 \<in> set dirs" using F_in_dirs [OF st(4)] by simp
    then have "COUNT (F d1) \<le> 3"
      using dir_cases [of "F d1"] by (auto simp: COUNT_def R_def U_def L_def D_def)
    moreover have "COUNT (mask_at s c) \<le> 3" using growingD(10) [OF g] c by blast
    ultimately show ?thesis using mask_after [OF ps(1) c] ps(3) by auto
  qed
  show "growing ?s2 (next_frontier s c1 d1 ps1)"
    unfolding growing_def
    using grid_ok_after [OF ps(1)] reciprocal_after [OF ps(1)] frontier_ok_after [OF assms]
      frontier_complete_after [OF assms] bits_exit_after [OF ps(1) growingD(5) [OF g] ps(2)]
      cf re rk ec nc
    by simp
  show "used_count ?s2 = Suc (used_count s)" using used_count_after [OF ps(1)] .
qed


section \<open>Net: the loop of the generator returns\<close>

lemma extend_grid_picked:
  assumes "growing s ps" and "in_range rnd" and "ps \<noteq> []"
  shows "\<exists>c1 d1 ps1 rs1.
           extend_grid rnd s ps rs = Inr (connect s c1 d1, next_frontier s c1 d1 ps1, rs1) \<and>
           picked s ps c1 d1 ps1"
proof -
  obtain i rs1 where r: "rnd rs (count234 ps) = (i, rs1)" by (cases "rnd rs (count234 ps)")
  have i: "i < length ps"
    using assms(2,3) r unfolding in_range_def count234_def
    by (metis fst_conv length_greater_0_conv)
  obtain x1 y1 d1 where e: "ps ! i = (x1, y1, d1)" by (cases "ps ! i")
  let ?c1 = "(x1, y1)"
  let ?ps1 = "take i ps @ drop (Suc i) ps"
  have mem: "(x1, y1, d1) \<in> set ps" using i e by (metis nth_mem)
  have dist: "distinct ps" using growingD(3) [OF assms(1)] by (simp add: frontier_ok_def)
  have pk: "picked s ps ?c1 d1 ?ps1"
    using assms(1) mem distinct_delpos [OF dist] set_delpos [OF dist i] e
    by (simp add: picked_def)
  note ps = picked_step [OF pk]
  note st = pipe_stepD [OF ps(1)]
  obtain x2 y2 where o: "OFFSET x1 y1 d1 s = (x2, y2)" by (cases "OFFSET x1 y1 d1 s")
  then have c2: "neighbour s ?c1 d1 = (x2, y2)" by (simp add: neighbour_def)
  let ?s1 = "tile_or s x1 y1 d1"
  have len: "length (tiles s) = width s * height s" using st(1) by (rule grid_okD)
  have "mask_at ?s1 (x2, y2) = 0"
    using mask_tile_or [OF len st(3,7), of d1] st(8,9) c2 by auto
  then have z: "tile ?s1 x2 y2 = 0" by (simp add: mask_at_def)
  have s2: "tile_or ?s1 x2 y2 (F d1) = connect s ?c1 d1"
    using c2 by (simp add: connect_def)
  have m1: "tile (connect s ?c1 d1) x1 y1 = mask_at (connect s ?c1 d1) ?c1"
    by (simp add: mask_at_def)
  have "extend_grid rnd s ps rs
      = Inr (connect s ?c1 d1, next_frontier s ?c1 d1 ?ps1, rs1)"
    using r i e o z c2
    by (simp add: extend_grid_def delpos234_def s2 m1 next_frontier_def Let_def)
  then show ?thesis using pk by blast
qed

lemma build_grid_returns:
  assumes "in_range rnd" and "growing s ps"
  shows "\<exists>s' rs'. build_grid rnd s ps rs = Some (Inr (s', [], rs')) \<and> growing s' [] \<and>
           width s' = width s \<and> height s' = height s \<and> wrapping s' = wrapping s \<and>
           barriers s' = barriers s \<and> cx s' = cx s \<and> cy s' = cy s"
  using assms(2)
proof (induction "width s * height s - used_count s" arbitrary: s ps rs rule: less_induct)
  case less
  show ?case
  proof (cases "ps = []")
    case True
    then show ?thesis
      using less.prems by (subst build_grid.simps) (simp add: count234_def)
  next
    case False
    from extend_grid_picked [OF less.prems assms(1) False, of rs]
    obtain c1 d1 ps1 rs1 where
      e: "extend_grid rnd s ps rs = Inr (connect s c1 d1, next_frontier s c1 d1 ps1, rs1)"
      and pk: "picked s ps c1 d1 ps1" by blast
    note ga = growing_after [OF pk]
    have "used_count (connect s c1 d1) \<le> width s * height s"
      using used_count_le [of "connect s c1 d1"] by simp
    then have "width (connect s c1 d1) * height (connect s c1 d1) - used_count (connect s c1 d1)
        < width s * height s - used_count s"
      using ga(2) by simp
    from less.hyps [OF this ga(1), of rs1]
    obtain s' rs' where
      b: "build_grid rnd (connect s c1 d1) (next_frontier s c1 d1 ps1) rs1
            = Some (Inr (s', [], rs'))"
      and g: "growing s' []"
      and same: "width s' = width s" "height s' = height s" "wrapping s' = wrapping s"
        "barriers s' = barriers s" "cx s' = cx s" "cy s' = cy s"
      by auto
    have "build_grid rnd s ps rs = Some (Inr (s', [], rs'))"
      using False e b by (subst build_grid.simps) (simp add: count234_def)
    then show ?thesis using g same by simp
  qed
qed


section \<open>Net: the generator starts and returns\<close>

lemma barrier_or_grid [simp]:
  "width (barrier_or s x y v) = width s" "height (barrier_or s x y v) = height s"
  "cx (barrier_or s x y v) = cx s" "cy (barrier_or s x y v) = cy s"
  "wrapping (barrier_or s x y v) = wrapping s" "tiles (barrier_or s x y v) = tiles s"
  "completed (barrier_or s x y v) = completed s"
  "last_rotate_dir (barrier_or s x y v) = last_rotate_dir s"
  "length (barriers (barrier_or s x y v)) = length (barriers s)"
  by (simp_all add: barrier_or_def)

lemma same_tiles_refl: "same_tiles s s"
  by (simp add: same_tiles_def)

lemma same_tiles_trans: "same_tiles s s' \<Longrightarrow> same_tiles s' s'' \<Longrightarrow> same_tiles s s''"
  by (simp add: same_tiles_def)

lemma same_tiles_barrier_or: "same_tiles s (barrier_or s x y v)"
  by (simp add: same_tiles_def)

lemma same_tiles_fold:
  assumes "\<And>a t. same_tiles t (f a t)"
  shows "same_tiles s (fold f xs s)"
proof (induction xs arbitrary: s)
  case Nil
  show ?case by (simp add: same_tiles_refl)
next
  case (Cons a xs)
  show ?case using same_tiles_trans [OF assms [of s a] Cons.IH] by simp
qed

lemma same_tiles_border: "same_tiles s (border_barriers s)"
proof -
  have a: "\<And>x t. same_tiles t (barrier_or (barrier_or t x 0 U) x (height t - 1) D)"
    using same_tiles_trans [OF same_tiles_barrier_or same_tiles_barrier_or] by blast
  have b: "\<And>y t. same_tiles t (barrier_or (barrier_or t 0 y L) (width t - 1) y R)"
    using same_tiles_trans [OF same_tiles_barrier_or same_tiles_barrier_or] by blast
  show ?thesis
    unfolding border_barriers_def Let_def
    using same_tiles_trans [OF same_tiles_fold same_tiles_fold, OF a b] same_tiles_refl
    by (cases "wrapping s") auto
qed

lemma start_state_fields:
  shows "width (start_state params) = nat (pwidth params)"
    and "height (start_state params) = nat (pheight params)"
    and "cx (start_state params) = nat (pwidth params) div 2"
    and "cy (start_state params) = nat (pheight params) div 2"
    and "wrapping (start_state params) = pwrapping params"
    and "tiles (start_state params) = replicate (nat (pwidth params) * nat (pheight params)) 0"
    and "completed (start_state params) = False"
    and "last_rotate_dir (start_state params) = 1"
    and "length (barriers (start_state params)) = nat (pwidth params) * nat (pheight params)"
  using same_tiles_border [of "blank_state params"]
  by (simp_all add: same_tiles_def start_state_def blank_state_def Let_def)

lemma start_mask:
  assumes "in_cells (start_state params) c"
  shows "mask_at (start_state params) c = 0"
proof -
  have "index (start_state params) (fst c) (snd c)
          < width (start_state params) * height (start_state params)"
    using assms by (rule index_lt)
  then show ?thesis
    by (simp add: mask_at_def tile_def start_state_fields)
qed

lemma start_used:
  assumes "in_cells (start_state params) c"
  shows "used (start_state params) c \<longleftrightarrow> c = centre (start_state params)"
  using start_mask [OF assms] by (simp add: used_def)

lemma start_grid_ok:
  assumes "valid_params params"
  shows "grid_ok (start_state params)"
  using assms start_mask [of params]
  by (auto simp: grid_ok_def start_state_fields valid_params_def is_mask_def)

lemma edge_count_start: "edge_count (start_state params) = 0"
  by (simp add: edge_count_def start_state_fields pipes_def)

lemma used_count_start:
  assumes "valid_params params"
  shows "used_count (start_state params) = 1"
proof -
  let ?s = "start_state params"
  have "in_cells ?s (centre ?s)" using start_grid_ok [OF assms] by (rule grid_okD)
  then have "{c. in_cells ?s c \<and> used ?s c} = {centre ?s}"
    using start_used [of params] by blast
  then show ?thesis by (simp add: used_count_def)
qed

lemma initial_possibilities_set:
  "(x, y, d) \<in> set (initial_possibilities s) \<longleftrightarrow>
     x = cx s \<and> y = cy s \<and>
     ((d = R \<and> cx s + 1 < width s) \<or> (d = U \<and> 1 \<le> cy s) \<or>
      (d = L \<and> 1 \<le> cx s) \<or> (d = D \<and> cy s + 1 < height s))"
  by (auto simp: initial_possibilities_def Let_def set_add234 new_xyd_def)

lemma initial_possibilities_distinct: "distinct (initial_possibilities s)"
  by (simp add: initial_possibilities_def Let_def distinct_add234)

lemma centre_moves:
  assumes "grid_ok s"
  shows "cx s + 1 < width s \<Longrightarrow> neighbour s (centre s) R = (cx s + 1, cy s)"
    and "1 \<le> cx s \<Longrightarrow> neighbour s (centre s) L = (cx s - 1, cy s)"
    and "cy s + 1 < height s \<Longrightarrow> neighbour s (centre s) D = (cx s, cy s + 1)"
    and "1 \<le> cy s \<Longrightarrow> neighbour s (centre s) U = (cx s, cy s - 1)"
proof -
  have w: "0 < width s" "0 < height s" "cx s < width s" "cy s < height s"
    using assms by (auto simp: grid_ok_def)
  show "cx s + 1 < width s \<Longrightarrow> neighbour s (centre s) R = (cx s + 1, cy s)"
    using w by (simp add: neighbour_R centre_def)
  show "1 \<le> cx s \<Longrightarrow> neighbour s (centre s) L = (cx s - 1, cy s)"
    using w by (simp add: neighbour_L centre_def pred_in)
  show "cy s + 1 < height s \<Longrightarrow> neighbour s (centre s) D = (cx s, cy s + 1)"
    using w by (simp add: neighbour_D centre_def)
  show "1 \<le> cy s \<Longrightarrow> neighbour s (centre s) U = (cx s, cy s - 1)"
    using w by (simp add: neighbour_U centre_def pred_in)
qed

lemma start_frontier_ok:
  assumes "valid_params params"
  shows "frontier_ok (start_state params) (initial_possibilities (start_state params))"
proof -
  let ?s = "start_state params"
  note ok = start_grid_ok [OF assms]
  have cen: "in_cells ?s (centre ?s)" using ok by (rule grid_okD)
  have "in_cells ?s (x, y) \<and> d \<in> set dirs \<and> exits ?s (x, y) d \<and> used ?s (x, y) \<and>
        \<not> used ?s (neighbour ?s (x, y) d) \<and> COUNT (mask_at ?s (x, y)) \<le> 2"
    if "(x, y, d) \<in> set (initial_possibilities ?s)" for x y d
  proof -
    have xy: "(x, y) = centre ?s"
      and d: "(d = R \<and> cx ?s + 1 < width ?s) \<or> (d = U \<and> 1 \<le> cy ?s) \<or>
              (d = L \<and> 1 \<le> cx ?s) \<or> (d = D \<and> cy ?s + 1 < height ?s)"
      using that by (simp_all add: initial_possibilities_set centre_def)
    have dd: "d \<in> set dirs" using d by (auto simp: dirs_are)
    have ex: "exits ?s (centre ?s) d"
      using d by (auto simp: exits_def centre_def)
    have "neighbour ?s (centre ?s) d \<noteq> centre ?s"
      using d centre_moves [OF ok] by (auto simp: centre_def)
    moreover have "in_cells ?s (neighbour ?s (centre ?s) d)" using ok by (rule grid_okD)
    ultimately have nu: "\<not> used ?s (neighbour ?s (centre ?s) d)"
      using start_used by simp
    have "COUNT (mask_at ?s (centre ?s)) \<le> 2"
      using start_mask [OF cen] by (simp add: COUNT_def)
    then show ?thesis using xy cen dd ex nu start_used [OF cen] by simp
  qed
  then show ?thesis
    unfolding frontier_ok_def using initial_possibilities_distinct by blast
qed

lemma half_is_last: "0 < w \<Longrightarrow> \<not> w div 2 + 1 < w \<Longrightarrow> w = 1 \<or> w = (2::nat)"
  by presburger

lemma half_is_first: "0 < w \<Longrightarrow> \<not> 1 \<le> w div 2 \<Longrightarrow> w = (1::nat)"
  by presburger

lemma start_frontier_complete:
  assumes "valid_params params"
  shows "frontier_complete (start_state params) (initial_possibilities (start_state params))"
proof -
  let ?s = "start_state params"
  let ?ps = "initial_possibilities ?s"
  note ok = start_grid_ok [OF assms]
  have w: "0 < width ?s" "0 < height ?s" "cx ?s = width ?s div 2" "cy ?s = height ?s div 2"
    "cx ?s < width ?s" "cy ?s < height ?s"
    using ok by (auto simp: grid_ok_def)
  have cen: "in_cells ?s (centre ?s)" using ok by (rule grid_okD)
  have "\<exists>d'\<in>set dirs. neighbour ?s c d' = neighbour ?s c d \<and> (fst c, snd c, d') \<in> set ?ps"
    if c: "in_cells ?s c" and d: "d \<in> set dirs" and u: "used ?s c"
      and nu: "\<not> used ?s (neighbour ?s c d)" for c d
  proof -
    have cc: "c = centre ?s" using start_used [OF c] u by simp
    have far: "neighbour ?s (centre ?s) d \<noteq> centre ?s"
      using nu cc by (auto simp: used_def)
    have mem: "(fst c, snd c, e) \<in> set ?ps \<longleftrightarrow>
        (e = R \<and> cx ?s + 1 < width ?s) \<or> (e = U \<and> 1 \<le> cy ?s) \<or>
        (e = L \<and> 1 \<le> cx ?s) \<or> (e = D \<and> cy ?s + 1 < height ?s)" for e
      using cc by (simp add: initial_possibilities_set centre_def)
    from dir_cases [OF d] show ?thesis
    proof (elim disjE)
      assume dR: "d = R"
      show ?thesis
      proof (cases "cx ?s + 1 < width ?s")
        case True
        then show ?thesis using dR mem [of R] by (auto simp: dirs_are)
      next
        case False
        then have "width ?s = 1 \<or> width ?s = 2" using half_is_last w(1,3) by simp
        then show ?thesis
        proof
          assume "width ?s = 1"
          then have "neighbour ?s (centre ?s) R = centre ?s"
            using w by (simp add: neighbour_R centre_def)
          then show ?thesis using far dR by simp
        next
          assume w2: "width ?s = 2"
          then have "neighbour ?s (centre ?s) R = neighbour ?s (centre ?s) L"
            using w by (simp add: neighbour_R neighbour_L centre_def)
          moreover have "(fst c, snd c, L) \<in> set ?ps" using mem [of L] w2 w(3) by simp
          ultimately show ?thesis using dR cc by (auto simp: dirs_are)
        qed
      qed
    next
      assume dU: "d = U"
      show ?thesis
      proof (cases "1 \<le> cy ?s")
        case True
        then show ?thesis using dU mem [of U] by (auto simp: dirs_are)
      next
        case False
        then have "height ?s = 1" using half_is_first w(2,4) by simp
        then have "neighbour ?s (centre ?s) U = centre ?s"
          using w by (simp add: neighbour_U centre_def)
        then show ?thesis using far dU by simp
      qed
    next
      assume dL: "d = L"
      show ?thesis
      proof (cases "1 \<le> cx ?s")
        case True
        then show ?thesis using dL mem [of L] by (auto simp: dirs_are)
      next
        case False
        then have "width ?s = 1" using half_is_first w(1,3) by simp
        then have "neighbour ?s (centre ?s) L = centre ?s"
          using w by (simp add: neighbour_L centre_def)
        then show ?thesis using far dL by simp
      qed
    next
      assume dD: "d = D"
      show ?thesis
      proof (cases "cy ?s + 1 < height ?s")
        case True
        then show ?thesis using dD mem [of D] by (auto simp: dirs_are)
      next
        case False
        then have "height ?s = 1 \<or> height ?s = 2" using half_is_last w(2,4) by simp
        then show ?thesis
        proof
          assume "height ?s = 1"
          then have "neighbour ?s (centre ?s) D = centre ?s"
            using w by (simp add: neighbour_D centre_def)
          then show ?thesis using far dD by simp
        next
          assume h2: "height ?s = 2"
          then have "neighbour ?s (centre ?s) D = neighbour ?s (centre ?s) U"
            using w by (simp add: neighbour_D neighbour_U centre_def)
          moreover have "(fst c, snd c, U) \<in> set ?ps" using mem [of U] h2 w(4) by simp
          ultimately show ?thesis using dD cc by (auto simp: dirs_are)
        qed
      qed
    qed
  qed
  then show ?thesis unfolding frontier_complete_def by blast
qed

lemma start_growing:
  assumes "valid_params params"
  shows "growing (start_state params) (initial_possibilities (start_state params))"
proof -
  let ?s = "start_state params"
  note ok = start_grid_ok [OF assms]
  have z: "\<And>c. in_cells ?s c \<Longrightarrow> mask_at ?s c = 0" by (rule start_mask)
  have n: "\<And>c d. in_cells ?s (neighbour ?s c d)" using ok by (rule grid_okD)
  have rec: "reciprocal ?s"
    unfolding reciprocal_def using z n by simp
  have be: "bits_exit ?s" unfolding bits_exit_def using z by auto
  have cf: "centre_first ?s" unfolding centre_first_def using z by blast
  have re: "\<forall>c. in_cells ?s c \<and> used ?s c \<longrightarrow> reachable ?s c"
    using start_used reachable.reachable_centre [of ?s] by auto
  have "ranked ?s (\<lambda>c. 0) 1"
    unfolding ranked_def using z by simp
  then have rk: "\<exists>rank n. ranked ?s rank n" by blast
  have ec: "edge_count ?s + 1 = used_count ?s"
    using edge_count_start used_count_start [OF assms] by simp
  have nc: "\<forall>c. in_cells ?s c \<longrightarrow> COUNT (mask_at ?s c) \<le> 3"
    using z by (simp add: COUNT_def)
  show ?thesis
    unfolding growing_def
    using ok rec start_frontier_ok [OF assms] start_frontier_complete [OF assms] be cf re rk ec
      nc
    by blast
qed

lemma unshuffled_grid_returns:
  assumes "in_range rnd" and "valid_params params"
  shows "\<exists>s rs'. unshuffled_grid rnd params rs = Some (Inr (s, rs')) \<and> growing s [] \<and>
           width s = nat (pwidth params) \<and> height s = nat (pheight params) \<and>
           wrapping s = pwrapping params \<and> barriers s = barriers (start_state params) \<and>
           cx s = nat (pwidth params) div 2 \<and> cy s = nat (pheight params) div 2"
proof -
  let ?s0 = "start_state params"
  from build_grid_returns [OF assms(1) start_growing [OF assms(2)], of rs]
  obtain s rs' where b: "build_grid rnd ?s0 (initial_possibilities ?s0) rs = Some (Inr (s, [], rs'))"
    and g: "growing s []"
    and same: "width s = width ?s0" "height s = height ?s0" "wrapping s = wrapping ?s0"
      "barriers s = barriers ?s0" "cx s = cx ?s0" "cy s = cy ?s0"
    by blast
  have "unshuffled_grid rnd params rs = Some (Inr (s, rs'))"
    using assms(2) b
    by (simp add: unshuffled_grid_def valid_params_def start_state_def [symmetric] Let_def
        count234_def)
  then show ?thesis using g same by (simp add: start_state_fields)
qed


section \<open>Net: the finished grid is a spanning tree\<close>

lemma neighbour_fst_snd:
  assumes "in_cells s c"
  shows "snd (neighbour s c R) = snd c" and "snd (neighbour s c L) = snd c"
    and "fst (neighbour s c U) = fst c" and "fst (neighbour s c D) = fst c"
proof -
  have w: "0 < width s" "0 < height s" "fst c < width s" "snd c < height s"
    using assms by (auto simp: in_cells_def)
  show "snd (neighbour s c R) = snd c" using w by (simp add: neighbour_R)
  show "snd (neighbour s c L) = snd c" using w by (simp add: neighbour_L)
  show "fst (neighbour s c U) = fst c" using w by (simp add: neighbour_U)
  show "fst (neighbour s c D) = fst c" using w by (simp add: neighbour_D)
qed

lemma perpendicular_cases:
  assumes "d \<in> set dirs" and "e \<in> set dirs" and "e \<noteq> d" and "e \<noteq> F d"
  shows "(d = R \<or> d = L) \<and> (e = U \<or> e = D) \<or> (d = U \<or> d = D) \<and> (e = R \<or> e = L)"
  using dir_cases [OF assms(1)] dir_cases [OF assms(2)] assms(3,4) by auto

lemma exits_side:
  assumes "in_cells s c" and "d \<in> set dirs" and "e \<in> set dirs" and "e \<noteq> d" and "e \<noteq> F d"
    and "exits s c d"
  shows "exits s (neighbour s c e) d"
  using perpendicular_cases [OF assms(2,3,4,5)] assms(6) neighbour_fst_snd [OF assms(1)]
  by (auto simp: exits_def)

lemma neighbour_commute:
  assumes "in_cells s c" and "d \<in> set dirs" and "e \<in> set dirs" and "e \<noteq> d" and "e \<noteq> F d"
  shows "neighbour s (neighbour s c e) d = neighbour s (neighbour s c d) e"
proof -
  have w: "0 < width s" "0 < height s" "fst c < width s" "snd c < height s"
    using assms(1) by (auto simp: in_cells_def)
  show ?thesis
    using perpendicular_cases [OF assms(2,3,4,5)] w
    by (auto simp: neighbour_R neighbour_L neighbour_U neighbour_D)
qed

lemma three_bits_enum:
  "\<forall>t\<in>set nibbles. \<forall>d\<in>set dirs. \<forall>e\<in>set dirs.
     COUNT t = 3 \<and> t AND d = 0 \<and> e \<noteq> d \<longrightarrow> t AND e \<noteq> 0"
  by (simp add: nibbles_def dirs_def COUNT_def)

lemma three_bits:
  assumes "is_mask t" and "d \<in> set dirs" and "e \<in> set dirs"
    and "COUNT t = 3" and "t AND d = 0" and "e \<noteq> d"
  shows "t AND e \<noteq> 0"
  using three_bits_enum mask_in_nibbles [OF assms(1)] assms(2-) by blast

subsection \<open>Ranks along links\<close>

lemma bit_used:
  assumes "grid_ok s" and "in_cells s c" and "mask_at s c AND d \<noteq> 0"
  shows "used s c"
  using assms(3) by (auto simp: used_def)

lemma link_back:
  assumes "grid_ok s" and "reciprocal s" and "in_cells s c" and "d \<in> set dirs"
    and "mask_at s c AND d \<noteq> 0"
  shows "in_cells s (neighbour s c d)" and "F d \<in> set dirs"
    and "mask_at s (neighbour s c d) AND F d \<noteq> 0"
    and "neighbour s (neighbour s c d) (F d) = c"
    and "used s (neighbour s c d)"
proof -
  show n: "in_cells s (neighbour s c d)" using assms(1) by (rule grid_okD)
  show "F d \<in> set dirs" using F_in_dirs [OF assms(4)] by simp
  show b: "mask_at s (neighbour s c d) AND F d \<noteq> 0"
    using reciprocalD [OF assms(2,3,4)] assms(5) by simp
  show "neighbour s (neighbour s c d) (F d) = c" using neighbour_back [OF assms(3,4)] .
  show "used s (neighbour s c d)" using bit_used [OF assms(1) n b] .
qed

lemma other_link_up:
  assumes "ranked s rank n" and "in_cells s c" and "d \<in> set dirs" and "e \<in> set dirs"
    and "mask_at s c AND d \<noteq> 0" and "mask_at s c AND e \<noteq> 0" and "e \<noteq> d"
    and "rank (neighbour s c d) < rank c"
  shows "rank c < rank (neighbour s c e)"
proof (rule ccontr)
  assume "\<not> rank c < rank (neighbour s c e)"
  moreover have "rank (neighbour s c e) \<noteq> rank c"
    using rankedD(2) [OF assms(1,2,4,6)] .
  ultimately have "rank (neighbour s c e) < rank c" by simp
  then have "d = e" using rankedD(3) [OF assms(1,2,3,4,5,6) assms(8)] by simp
  then show False using assms(7) by simp
qed

lemma walkD:
  assumes "walk s c d"
  shows "in_cells s (c i)" and "d i \<in> set dirs" and "mask_at s (c i) AND d i \<noteq> 0"
    and "c (Suc i) = neighbour s (c i) (d i)" and "d (Suc i) \<noteq> F (d i)"
  using assms unfolding walk_def linked_def by blast+

lemma walk_keeps_rising:
  assumes "grid_ok s" and "reciprocal s" and "ranked s rank n" and "walk s c d"
    and "rank (c i) < rank (c (Suc i))"
  shows "rank (c (Suc i)) < rank (c (Suc (Suc i)))"
proof -
  note w = walkD [OF assms(4)]
  note lb = link_back [OF assms(1,2) w(1,2,3), of i]
  let ?c = "c (Suc i)"
  have c: "?c = neighbour s (c i) (d i)" using w(4) .
  have b1: "mask_at s ?c AND F (d i) \<noteq> 0" using lb(3) c by simp
  have lower: "rank (neighbour s ?c (F (d i))) < rank ?c"
    using lb(4) c assms(5) by simp
  have "rank ?c < rank (neighbour s ?c (d (Suc i)))"
    using other_link_up [OF assms(3) w(1) lb(2) w(2) b1 w(3) w(5) lower] .
  then show ?thesis using w(4) [of "Suc i"] by simp
qed

lemma no_walk:
  assumes "grid_ok s" and "reciprocal s" and "ranked s rank n"
  shows "\<not> walk s c d"
proof
  assume wk: "walk s c d"
  note w = walkD [OF wk]
  have bound: "rank (c i) < n" for i
    using rankedD(1) [OF assms(3) w(1) bit_used [OF assms(1) w(1) w(3)]] .
  have ne: "rank (c (Suc i)) \<noteq> rank (c i)" for i
    using rankedD(2) [OF assms(3) w(1,2,3), of i] w(4) by simp
  show False
  proof (cases "\<exists>i. rank (c i) < rank (c (Suc i))")
    case True
    then obtain i where i: "rank (c i) < rank (c (Suc i))" by blast
    have "rank (c (i + j)) < rank (c (Suc (i + j))) \<and> rank (c i) + j \<le> rank (c (i + j))" for j
    proof (induction j)
      case 0
      then show ?case using i by simp
    next
      case (Suc j)
      then show ?case
        using walk_keeps_rising [OF assms wk, of "i + j"] by simp
    qed
    then have "n \<le> rank (c (i + n))" by (metis le_add2 le_trans)
    then show False using bound [of "i + n"] by simp
  next
    case False
    have down: "rank (c (Suc i)) < rank (c i)" for i
    proof -
      have "\<not> rank (c i) < rank (c (Suc i))" using False by blast
      then show ?thesis using ne [of i] by linarith
    qed
    have "rank (c i) + i \<le> rank (c 0)" for i
    proof (induction i)
      case 0
      then show ?case by simp
    next
      case (Suc i)
      then show ?case using down [of i] by simp
    qed
    then have "Suc (rank (c 0)) \<le> rank (c 0)" by (metis le_add2 le_trans)
    then show False by simp
  qed
qed

lemma ranked_acyclic:
  assumes "grid_ok s" and "reciprocal s" and "ranked s rank n"
  shows "acyclic_grid s"
proof -
  have "\<not> cycle s c d k" for c d k
    using no_walk [OF assms, of c d] by (auto simp: cycle_def walk_def)
  then show ?thesis by (simp add: acyclic_grid_def)
qed

subsection \<open>No unused cell is left\<close>

lemma sealedD:
  assumes "sealed s"
  shows "grid_ok s" and "reciprocal s" and "bits_exit s"
    and "boundary s c d \<Longrightarrow> COUNT (mask_at s c) = 3"
  using assms unfolding sealed_def by blast+

lemma boundaryD:
  assumes "boundary s c d"
  shows "in_cells s c" and "d \<in> set dirs" and "used s c" and "exits s c d"
    and "\<not> used s (neighbour s c d)" and "mask_at s (neighbour s c d) = 0"
  using assms unfolding boundary_def used_def by blast+

lemma boundary_bits:
  assumes "sealed s" and "boundary s c d"
  shows "mask_at s c AND d = 0"
    and "e \<in> set dirs \<Longrightarrow> e \<noteq> d \<Longrightarrow> mask_at s c AND e \<noteq> 0"
proof -
  note se = sealedD [OF assms(1)]
  note b = boundaryD [OF assms(2)]
  have "mask_at s (neighbour s c d) AND F d = 0" using b(6) by simp
  then show z: "mask_at s c AND d = 0" using reciprocalD [OF se(2) b(1,2)] by simp
  show "e \<in> set dirs \<Longrightarrow> e \<noteq> d \<Longrightarrow> mask_at s c AND e \<noteq> 0"
    using three_bits [OF grid_ok_mask [OF se(1) b(1)] b(2) _ se(4) [OF assms(2)] z] by simp
qed

lemma turn_facts:
  assumes "d \<in> set dirs"
  shows "A d \<in> set dirs" and "A d \<noteq> d" and "A d \<noteq> F d" and "F (A d) \<in> set dirs"
    and "F (A d) \<noteq> d" and "A (F (A d)) = d" and "d \<noteq> F d" and "F d \<in> set dirs"
    and "F d \<noteq> F (A d)" and "F (F d) = d" and "F (A d) \<noteq> A d" and "d \<noteq> F (F (A d))"
  using dir_cases [OF assms] by (auto simp: dirs_are)

lemma boundary_next:
  assumes "sealed s" and "boundary s r d"
  shows "in_cells s (neighbour s r (A d))"
    and "mask_at s r AND A d \<noteq> 0"
    and "mask_at s (neighbour s r (A d)) AND F (A d) \<noteq> 0"
    and "neighbour s (neighbour s r (A d)) (F (A d)) = r"
    and "\<not> used s (neighbour s (neighbour s r (A d)) d) \<Longrightarrow> boundary s (neighbour s r (A d)) d"
    and "used s (neighbour s (neighbour s r (A d)) d) \<Longrightarrow>
           boundary s (neighbour s (neighbour s r (A d)) d) (F (A d))"
proof -
  note se = sealedD [OF assms(1)]
  note b = boundaryD [OF assms(2)]
  note t = turn_facts [OF b(2)]
  let ?f = "A d"
  let ?r' = "neighbour s r ?f"
  let ?u = "neighbour s r d"
  let ?u' = "neighbour s ?r' d"
  have bf: "mask_at s r AND ?f \<noteq> 0" using boundary_bits(2) [OF assms t(1,2)] .
  note lb = link_back [OF se(1,2) b(1) t(1) bf]
  show "in_cells s ?r'" using lb(1) .
  show "mask_at s r AND ?f \<noteq> 0" using bf .
  show "mask_at s ?r' AND F ?f \<noteq> 0" using lb(3) .
  show "neighbour s ?r' (F ?f) = r" using lb(4) .
  have ex: "exits s ?r' d" using exits_side [OF b(1,2) t(1,2,3) b(4)] .
  show "\<not> used s ?u' \<Longrightarrow> boundary s ?r' d"
    using lb(1,5) b(2) ex by (simp add: boundary_def)
  have cm: "?u' = neighbour s ?u ?f" using neighbour_commute [OF b(1,2) t(1,2,3)] .
  have u: "in_cells s ?u" using se(1) by (rule grid_okD)
  have u': "in_cells s ?u'" using se(1) by (rule grid_okD)
  have "exits s r ?f" using se(3) b(1) t(1) bf unfolding bits_exit_def by blast
  moreover have "d \<noteq> ?f" and "d \<noteq> F ?f" using t(2,5) by auto
  ultimately have "exits s ?u ?f"
    using exits_side [OF b(1) t(1) b(2)] by simp
  then have ex': "exits s ?u' (F ?f)" using exits_back [OF u t(1)] cm by simp
  have "neighbour s ?u' (F ?f) = ?u" using neighbour_back [OF u t(1)] cm by simp
  then show "used s ?u' \<Longrightarrow> boundary s ?u' (F ?f)"
    using u' t(4) ex' b(5) by (simp add: boundary_def)
qed

text \<open>
  The step around the unused region: from a boundary cell \<open>r\<close> with the unused cell in
  direction \<open>d\<close>, go on in direction \<open>A d\<close>; either the next cell is again at the
  boundary, or the region turns and the walk turns with it.
\<close>

lemma rising_next:
  assumes "sealed s" and "ranked s rank n" and "boundary s r d"
    and "rank r < rank (neighbour s r (A d))"
  shows "\<exists>r' d'. boundary s r' d' \<and> rank r' < rank (neighbour s r' (A d')) \<and>
           rank (neighbour s r (A d)) < rank (neighbour s r' (A d'))"
proof -
  note se = sealedD [OF assms(1)]
  note b = boundaryD [OF assms(3)]
  note t = turn_facts [OF b(2)]
  note bn = boundary_next [OF assms(1,3)]
  let ?f = "A d"
  let ?r' = "neighbour s r ?f"
  let ?u' = "neighbour s ?r' d"
  have low: "rank (neighbour s ?r' (F ?f)) < rank ?r'" using bn(4) assms(4) by simp
  show ?thesis
  proof (cases "used s ?u'")
    case False
    have b': "boundary s ?r' d" using bn(5) [OF False] .
    have bf: "mask_at s ?r' AND ?f \<noteq> 0" using boundary_bits(2) [OF assms(1) b' t(1,2)] .
    have "rank ?r' < rank (neighbour s ?r' ?f)"
      using other_link_up [OF assms(2) bn(1) t(4) t(1) bn(3) bf _ low] t(11) by simp
    then show ?thesis using b' by blast
  next
    case True
    have b': "boundary s ?u' (F ?f)" using bn(6) [OF True] .
    have bd: "mask_at s ?u' AND d \<noteq> 0"
      using boundary_bits(2) [OF assms(1) b' b(2)] t(5) by auto
    have bFd: "mask_at s ?u' AND F d \<noteq> 0"
      using boundary_bits(2) [OF assms(1) b' t(8,9)] .
    have u': "in_cells s ?u'" using boundaryD(1) [OF b'] .
    have "mask_at s (neighbour s ?r' d) AND F d \<noteq> 0" using bFd .
    then have rd: "mask_at s ?r' AND d \<noteq> 0" using reciprocalD [OF se(2) bn(1) b(2)] by simp
    have up1: "rank ?r' < rank ?u'"
      using other_link_up [OF assms(2) bn(1) t(4) b(2) bn(3) rd _ low] t(5) by auto
    have "neighbour s ?u' (F d) = ?r'" using neighbour_back [OF bn(1) b(2)] .
    then have low': "rank (neighbour s ?u' (F d)) < rank ?u'" using up1 by simp
    have "rank ?u' < rank (neighbour s ?u' d)"
      using other_link_up [OF assms(2) u' t(8) b(2) bFd bd t(7) low'] .
    then have "rank ?u' < rank (neighbour s ?u' (A (F ?f)))
        \<and> rank ?r' < rank (neighbour s ?u' (A (F ?f)))"
      using t(6) up1 by simp
    then show ?thesis using b' by blast
  qed
qed

lemma no_rising_boundary:
  assumes "sealed s" and "ranked s rank n" and "boundary s r d"
  shows "\<not> rank r < rank (neighbour s r (A d))"
  using assms(3)
proof (induction "n - rank (neighbour s r (A d))" arbitrary: r d rule: less_induct)
  case less
  show ?case
  proof
    assume up: "rank r < rank (neighbour s r (A d))"
    from rising_next [OF assms(1,2) less.prems up]
    obtain r' d' where b': "boundary s r' d'" and up': "rank r' < rank (neighbour s r' (A d'))"
      and more: "rank (neighbour s r (A d)) < rank (neighbour s r' (A d'))" by blast
    note se = sealedD [OF assms(1)]
    note bn = boundary_next [OF assms(1) b']
    have "used s (neighbour s r' (A d'))" using bit_used [OF se(1) bn(1) bn(3)] .
    then have "rank (neighbour s r' (A d')) < n" using rankedD(1) [OF assms(2) bn(1)] by simp
    then have "n - rank (neighbour s r' (A d')) < n - rank (neighbour s r (A d))"
      using more by simp
    from less.hyps [OF this b'] up' show False by simp
  qed
qed

lemma falling_next:
  assumes "sealed s" and "ranked s rank n" and "boundary s r d"
  shows "\<exists>r' d'. boundary s r' d' \<and> rank r' < rank r"
proof -
  note se = sealedD [OF assms(1)]
  note b = boundaryD [OF assms(3)]
  note t = turn_facts [OF b(2)]
  note bn = boundary_next [OF assms(1,3)]
  let ?f = "A d"
  let ?r' = "neighbour s r ?f"
  let ?u' = "neighbour s ?r' d"
  have "rank ?r' \<noteq> rank r" using rankedD(2) [OF assms(2) b(1) t(1) bn(2)] .
  then have dn: "rank ?r' < rank r" using no_rising_boundary [OF assms] by simp
  show ?thesis
  proof (cases "used s ?u'")
    case False
    then show ?thesis using bn(5) dn by blast
  next
    case True
    have b': "boundary s ?u' (F ?f)" using bn(6) [OF True] .
    have bd: "mask_at s ?u' AND d \<noteq> 0"
      using boundary_bits(2) [OF assms(1) b' b(2)] t(5) by auto
    have bFd: "mask_at s ?u' AND F d \<noteq> 0"
      using boundary_bits(2) [OF assms(1) b' t(8,9)] .
    have u': "in_cells s ?u'" using boundaryD(1) [OF b'] .
    have ret: "neighbour s ?u' (F d) = ?r'" using neighbour_back [OF bn(1) b(2)] .
    have "rank ?u' < rank ?r'"
    proof (rule ccontr)
      assume "\<not> rank ?u' < rank ?r'"
      moreover have "rank (neighbour s ?u' (F d)) \<noteq> rank ?u'"
        using rankedD(2) [OF assms(2) u' t(8) bFd] .
      ultimately have low': "rank (neighbour s ?u' (F d)) < rank ?u'" using ret by simp
      have "rank ?u' < rank (neighbour s ?u' d)"
        using other_link_up [OF assms(2) u' t(8) b(2) bFd bd t(7) low'] .
      then have "rank ?u' < rank (neighbour s ?u' (A (F ?f)))" using t(6) by simp
      then show False using no_rising_boundary [OF assms(1,2) b'] by simp
    qed
    then show ?thesis using b' dn by (meson less_trans)
  qed
qed

lemma no_boundary:
  assumes "sealed s" and "ranked s rank n"
  shows "\<not> boundary s r d"
proof (induction "rank r" arbitrary: r d rule: less_induct)
  case less
  show ?case
  proof
    assume "boundary s r d"
    from falling_next [OF assms this]
    obtain r' d' where "boundary s r' d'" and "rank r' < rank r" by blast
    then show False using less.hyps by blast
  qed
qed

lemma grid_moves:
  assumes "in_cells s (x, y)"
  shows "x + 1 < width s \<Longrightarrow> exits s (x, y) R \<and> neighbour s (x, y) R = (x + 1, y)"
    and "0 < x \<Longrightarrow> exits s (x, y) L \<and> neighbour s (x, y) L = (x - 1, y)"
    and "y + 1 < height s \<Longrightarrow> exits s (x, y) D \<and> neighbour s (x, y) D = (x, y + 1)"
    and "0 < y \<Longrightarrow> exits s (x, y) U \<and> neighbour s (x, y) U = (x, y - 1)"
proof -
  have w: "0 < width s" "0 < height s" "x < width s" "y < height s"
    using assms by (auto simp: in_cells_def)
  show "x + 1 < width s \<Longrightarrow> exits s (x, y) R \<and> neighbour s (x, y) R = (x + 1, y)"
    using w by (simp add: neighbour_R exits_def)
  show "0 < x \<Longrightarrow> exits s (x, y) L \<and> neighbour s (x, y) L = (x - 1, y)"
    using w by (simp add: neighbour_L exits_def pred_in)
  show "y + 1 < height s \<Longrightarrow> exits s (x, y) D \<and> neighbour s (x, y) D = (x, y + 1)"
    using w by (simp add: neighbour_D exits_def)
  show "0 < y \<Longrightarrow> exits s (x, y) U \<and> neighbour s (x, y) U = (x, y - 1)"
    using w by (simp add: neighbour_U exits_def pred_in)
qed

lemma used_spreads:
  assumes "sealed s" and "ranked s rank n" and "in_cells s c" and "used s c"
    and "d \<in> set dirs" and "exits s c d"
  shows "used s (neighbour s c d)"
  using no_boundary [OF assms(1,2), of c d] assms(3-) by (auto simp: boundary_def)

lemma used_row:
  assumes "sealed s" and "ranked s rank n" and "used s (x0, y)" and "in_cells s (x0, y)"
    and "x < width s"
  shows "used s (x, y)"
proof -
  have y: "y < height s" using assms(4) by (simp add: in_cells_def)
  have right: "x0 + k < width s \<Longrightarrow> used s (x0 + k, y)" for k
  proof (induction k)
    case 0
    then show ?case using assms(3) by simp
  next
    case (Suc k)
    then have u: "used s (x0 + k, y)" and c: "in_cells s (x0 + k, y)"
      using y by (simp_all add: in_cells_def)
    have "exits s (x0 + k, y) R \<and> neighbour s (x0 + k, y) R = (x0 + k + 1, y)"
      using grid_moves(1) [OF c] Suc.prems by simp
    then show ?case
      using used_spreads [OF assms(1,2) c u, of R] by (simp add: dirs_are)
  qed
  have left: "k \<le> x0 \<Longrightarrow> used s (x0 - k, y)" for k
  proof (induction k)
    case 0
    then show ?case using assms(3) by simp
  next
    case (Suc k)
    then have u: "used s (x0 - k, y)" and c: "in_cells s (x0 - k, y)"
      using y assms(4) by (simp_all add: in_cells_def)
    have "exits s (x0 - k, y) L \<and> neighbour s (x0 - k, y) L = (x0 - k - 1, y)"
      using grid_moves(2) [OF c] Suc.prems by simp
    then show ?case
      using used_spreads [OF assms(1,2) c u, of L] by (simp add: dirs_are)
  qed
  show ?thesis
  proof (cases "x0 \<le> x")
    case True
    then show ?thesis using right [of "x - x0"] assms(5) by simp
  next
    case False
    then show ?thesis using left [of "x0 - x"] by simp
  qed
qed

lemma used_column:
  assumes "sealed s" and "ranked s rank n" and "used s (x, y0)" and "in_cells s (x, y0)"
    and "y < height s"
  shows "used s (x, y)"
proof -
  have x: "x < width s" using assms(4) by (simp add: in_cells_def)
  have down: "y0 + k < height s \<Longrightarrow> used s (x, y0 + k)" for k
  proof (induction k)
    case 0
    then show ?case using assms(3) by simp
  next
    case (Suc k)
    then have u: "used s (x, y0 + k)" and c: "in_cells s (x, y0 + k)"
      using x by (simp_all add: in_cells_def)
    have "exits s (x, y0 + k) D \<and> neighbour s (x, y0 + k) D = (x, y0 + k + 1)"
      using grid_moves(3) [OF c] Suc.prems by simp
    then show ?case
      using used_spreads [OF assms(1,2) c u, of D] by (simp add: dirs_are)
  qed
  have up: "k \<le> y0 \<Longrightarrow> used s (x, y0 - k)" for k
  proof (induction k)
    case 0
    then show ?case using assms(3) by simp
  next
    case (Suc k)
    then have u: "used s (x, y0 - k)" and c: "in_cells s (x, y0 - k)"
      using x assms(4) by (simp_all add: in_cells_def)
    have "exits s (x, y0 - k) U \<and> neighbour s (x, y0 - k) U = (x, y0 - k - 1)"
      using grid_moves(4) [OF c] Suc.prems by simp
    then show ?case
      using used_spreads [OF assms(1,2) c u, of U] by (simp add: dirs_are)
  qed
  show ?thesis
  proof (cases "y0 \<le> y")
    case True
    then show ?thesis using down [of "y - y0"] assms(5) by simp
  next
    case False
    then show ?thesis using up [of "y0 - y"] by simp
  qed
qed

lemma all_used:
  assumes "sealed s" and "ranked s rank n" and "in_cells s c"
  shows "used s c"
proof -
  note se = sealedD [OF assms(1)]
  have cen: "in_cells s (cx s, cy s)" using grid_okD(4) [OF se(1)] by (simp add: centre_def)
  have "used s (cx s, cy s)" by (simp add: used_def centre_def)
  then have row: "used s (fst c, cy s)"
    using used_row [OF assms(1,2) _ cen] assms(3) by (simp add: in_cells_def)
  have ic: "in_cells s (fst c, cy s)" using cen assms(3) by (simp add: in_cells_def)
  have "snd c < height s" using assms(3) by (simp add: in_cells_def)
  from used_column [OF assms(1,2) row ic this]
  show ?thesis by simp
qed

lemma growing_sealed:
  assumes "growing s []"
  shows "sealed s"
proof -
  have "COUNT (mask_at s c) = 3" if "boundary s c d" for c d
    using frontier_completeD [OF growingD(4) [OF assms], of c d] that
    by (simp add: boundary_def)
  then show ?thesis
    using growingD(1,2,5) [OF assms] by (simp add: sealed_def)
qed

lemma grown_spanning_tree:
  assumes "growing s []"
  shows "spanning_tree s"
proof -
  note g = growingD [OF assms]
  note se = growing_sealed [OF assms]
  obtain rank n where r: "ranked s rank n" using g(8) by blast
  have all: "\<And>c. in_cells s c \<Longrightarrow> used s c" using all_used [OF se r] .
  have reach: "\<forall>c. in_cells s c \<longrightarrow> reachable s c" using g(7) all by blast
  have "{c. in_cells s c \<and> used s c} = {c. in_cells s c}" using all by blast
  then have "used_count s = width s * height s" by (simp add: used_count_def card_cells)
  then have ec: "edge_count s + 1 = width s * height s" using g(9) by simp
  have nc: "mask_at s c \<noteq> 15" if "in_cells s c" for c
  proof -
    have "COUNT (mask_at s c) \<le> 3" using g(10) that by blast
    then show ?thesis by (auto simp: COUNT_def)
  qed
  show ?thesis
    unfolding spanning_tree_def
    using g(5) reach ranked_acyclic [OF g(1,2) r] ec nc by simp
qed

text \<open>In a spanning tree every link stays on the board.\<close>

lemma spanning_tree_on_board:
  assumes "spanning_tree s" and "in_cells s c" and "linked s c d"
  shows "exits s c d"
  using assms unfolding spanning_tree_def bits_exit_def linked_def by blast

text \<open>
  The grid whose tiles point off the board is no spanning tree, and the connectivity
  solver reaches only its centre.
\<close>

lemma apart_grid_no_tree:
  "\<not> spanning_tree apart_grid \<and> compute_active apart_grid = Some (Inr [0, 32])"
proof -
  have "in_cells apart_grid (0, 0)" "L \<in> set dirs" "mask_at apart_grid (0, 0) AND L \<noteq> 0"
    "\<not> exits apart_grid (0, 0) L"
    by (simp_all add: apart_grid_def in_cells_def dirs_def L_def mask_at_def tile_def index_def
        exits_def)
  then have "\<not> bits_exit apart_grid" unfolding bits_exit_def by blast
  moreover have "compute_active apart_grid = Some (Inr [0, 32])" by code_simp
  ultimately show ?thesis by (simp add: spanning_tree_def)
qed


section \<open>Net: the grid before the shuffle\<close>

lemma list_upto_in_range: "in_range list_upto"
  by (auto simp: in_range_def list_upto_def split: list.splits)

lemma example_unshuffled:
  "unshuffled_grid list_upto example_params [5, 3, 7, 2, 9, 1, 1, 1]
     = Some (Inr (example_grid, []))"
  by code_simp

lemma bounded_unshuffled:
  "unshuffled_grid list_upto bounded_params [0, 1, 0] = Some (Inr (bounded_grid, []))"
  by code_simp

text \<open>
  Claim C1. For every random source that draws within the size asked for, every random
  state, and all parameters with positive dimensions of which one is above 1, the
  generator returns a grid of these dimensions, and the connection masks it holds
  before the shuffle form a spanning tree: no connection bit points off the board of a
  non-wrapping game, so that every link joins cells adjacent on the board; every cell is
  reachable from the centre along links; there is no cycle; there is one pipe less than
  there are cells; and no mask is 0xF.
\<close>

theorem unshuffled_spanning_tree:
  assumes "in_range rnd" and "valid_params params"
  shows "\<exists>s rs'. unshuffled_grid rnd params rs = Some (Inr (s, rs')) \<and>
           width s = nat (pwidth params) \<and> height s = nat (pheight params) \<and>
           wrapping s = pwrapping params \<and> spanning_tree s"
proof -
  from unshuffled_grid_returns [OF assms, of rs]
  obtain s rs' where "unshuffled_grid rnd params rs = Some (Inr (s, rs'))"
    and "growing s []" and "width s = nat (pwidth params)"
    and "height s = nat (pheight params)" and "wrapping s = pwrapping params"
    by blast
  then show ?thesis using grown_spanning_tree by blast
qed

theorem unshuffled_spanning_tree_witness:
  "unshuffled_grid list_upto example_params [5, 3, 7, 2, 9, 1, 1, 1]
     = Some (Inr (example_grid, [])) \<and> spanning_tree example_grid \<and>
   unshuffled_grid list_upto bounded_params [0, 1, 0]
     = Some (Inr (bounded_grid, [])) \<and> spanning_tree bounded_grid"
  using unshuffled_spanning_tree
          [OF list_upto_in_range, of example_params "[5, 3, 7, 2, 9, 1, 1, 1]"]
        unshuffled_spanning_tree [OF list_upto_in_range, of bounded_params "[0, 1, 0]"]
        example_unshuffled bounded_unshuffled
  by (simp add: valid_params_def example_params_def bounded_params_def)

text \<open>
  Claim C2, as amended. In the grid the generator holds before the shuffle, a cell has
  bit \<open>d\<close> exactly when its neighbour in direction \<open>d\<close> has the reciprocal bit.
\<close>

theorem unshuffled_reciprocal:
  assumes "in_range rnd" and "valid_params params"
  shows "\<exists>s rs'. unshuffled_grid rnd params rs = Some (Inr (s, rs')) \<and> reciprocal s"
proof -
  from unshuffled_grid_returns [OF assms, of rs]
  obtain s rs' where "unshuffled_grid rnd params rs = Some (Inr (s, rs'))"
    and "growing s []" by blast
  then show ?thesis using growingD(2) by blast
qed

theorem unshuffled_reciprocal_witness:
  "unshuffled_grid list_upto example_params [5, 3, 7, 2, 9, 1, 1, 1]
     = Some (Inr (example_grid, [])) \<and> reciprocal example_grid"
  using unshuffled_reciprocal
          [OF list_upto_in_range, of example_params "[5, 3, 7, 2, 9, 1, 1, 1]"]
        example_unshuffled
  by (simp add: valid_params_def example_params_def)

text \<open>
  The claim as stated, for every game state, fails on the state \<^verbatim>\<open>new_game\<close> returns:
  the shuffle turns tiles one by one. In the 2 x 1 game below the right tile points
  left and the left tile points up.
\<close>

theorem shuffled_not_reciprocal:
  "new_game list_upto
     \<lparr>pwidth = 2, pheight = 1, pwrapping = False, barrier_probability = 0\<rparr> [0, 1, 0]
     = Some (Inr example_state) \<and> \<not> reciprocal example_state"
proof
  show "new_game list_upto
     \<lparr>pwidth = 2, pheight = 1, pwrapping = False, barrier_probability = 0\<rparr> [0, 1, 0]
     = Some (Inr example_state)"
    by code_simp
  show "\<not> reciprocal example_state"
  proof
    assume "reciprocal example_state"
    moreover have "in_cells example_state (1, 0)"
      by (simp add: in_cells_def example_state_def)
    moreover have "L \<in> set dirs" by (simp add: dirs_are)
    ultimately have "mask_at example_state (1, 0) AND L \<noteq> 0 \<longleftrightarrow>
        mask_at example_state (neighbour example_state (1, 0) L) AND F L \<noteq> 0"
      by (rule reciprocalD)
    moreover have "mask_at example_state (1, 0) AND L = 4"
      by code_simp
    moreover have "mask_at example_state (neighbour example_state (1, 0) L) AND F L = 0"
      by code_simp
    ultimately show False by simp
  qed
qed


section \<open>Net: barriers and corner flags\<close>

lemma or_and_nonzero: "(b OR v) AND d \<noteq> 0 \<longleftrightarrow> b AND d \<noteq> 0 \<or> v AND d \<noteq> (0::int)"
  by (simp add: bit.conj_disj_distrib2 or_eq_0_iff)

lemma more_barriers_refl: "more_barriers s s"
  by (simp add: more_barriers_def)

lemma more_barriers_trans:
  "more_barriers s s' \<Longrightarrow> more_barriers s' s'' \<Longrightarrow> more_barriers s s''"
  by (simp add: more_barriers_def)

lemma more_barriers_or: "more_barriers s (barrier_or s x y v)"
proof -
  have "(barriers s)[index s x y := barrier s x y OR v] ! i AND d \<noteq> 0"
    if "barriers s ! i AND d \<noteq> 0" for i d
  proof (cases "i = index s x y \<and> i < length (barriers s)")
    case True
    then show ?thesis using that by (simp add: barrier_def or_and_nonzero)
  next
    case False
    then show ?thesis
      using that by (cases "i = index s x y") (simp_all add: list_update_beyond not_less)
  qed
  then show ?thesis by (simp add: more_barriers_def barrier_or_def)
qed

lemma same_edges_refl: "same_edges s s"
  by (simp add: same_edges_def)

lemma same_edges_trans: "same_edges s s' \<Longrightarrow> same_edges s' s'' \<Longrightarrow> same_edges s s''"
  by (simp add: same_edges_def)

lemma corner_bit_enum:
  "\<forall>v\<in>set dirs. \<forall>d\<in>set dirs. push_bit 4 v AND d = 0"
  by (simp add: dirs_def)

lemma same_edges_or:
  assumes "v \<in> set dirs"
  shows "same_edges s (barrier_or s x y (push_bit 4 v))"
proof -
  have "(barriers s)[index s x y := barrier s x y OR push_bit 4 v] ! i AND d \<noteq> 0
          \<longleftrightarrow> barriers s ! i AND d \<noteq> 0"
    if d: "d \<in> set dirs" for i d
  proof (cases "i = index s x y \<and> i < length (barriers s)")
    case True
    then show ?thesis
      using corner_bit_enum assms d by (simp add: barrier_def or_and_nonzero)
  next
    case False
    then show ?thesis
      by (cases "i = index s x y") (simp_all add: list_update_beyond not_less)
  qed
  then show ?thesis by (simp add: same_edges_def barrier_or_def)
qed

lemma same_edges_fold:
  assumes "\<And>a t. a \<in> set xs \<Longrightarrow> same_edges t (f a t)"
  shows "same_edges s (fold f xs s)"
  using assms
proof (induction xs arbitrary: s)
  case Nil
  show ?case by (simp add: same_edges_refl)
next
  case (Cons a xs)
  have "same_edges s (f a s)" using Cons.prems by simp
  moreover have "same_edges (f a s) (fold f xs (f a s))" using Cons by simp
  ultimately show ?case using same_edges_trans by simp
qed

lemma C_in_dirs: "d \<in> set dirs \<Longrightarrow> C d \<in> set dirs"
  by (auto simp: dirs_def C_def)

lemma same_edges_cases:
  "same_edges s a \<Longrightarrow> same_edges s b \<Longrightarrow> same_edges s (if P then a else b)"
  by simp

lemma same_edges_if:
  assumes "v \<in> set dirs"
  shows "same_edges t (if P then barrier_or t x y (push_bit 4 v) else t)"
  using same_edges_or [OF assms] same_edges_refl by (cases P) simp_all

lemma same_edges_corner_flags:
  assumes "dir \<in> set dirs"
  shows "same_edges s (corner_flags x y dir s)"
proof -
  have a: "A dir \<in> set dirs" "F dir \<in> set dirs" "C dir \<in> set dirs"
    using A_in_dirs [OF assms] F_in_dirs [OF assms] C_in_dirs [OF assms] by simp_all
  let ?x1 = "int x + X dir" and ?y1 = "int y + Y dir"
  let ?x2 = "int x + X (A dir)" and ?y2 = "int y + Y (A dir)"
  let ?x3 = "int x + X dir + X (A dir)" and ?y3 = "int y + Y dir + Y (A dir)"
  let ?s0 = "barrier_or s x y (push_bit 4 dir)"
  let ?s1 = "if in_grid ?s0 ?x1 ?y1
             then barrier_or ?s0 (nat ?x1) (nat ?y1) (push_bit 4 (A dir)) else ?s0"
  let ?s2 = "if in_grid ?s1 ?x2 ?y2
             then barrier_or ?s1 (nat ?x2) (nat ?y2) (push_bit 4 (C dir)) else ?s1"
  let ?s3 = "if in_grid ?s2 ?x3 ?y3
             then barrier_or ?s2 (nat ?x3) (nat ?y3) (push_bit 4 (F dir)) else ?s2"
  have e0: "same_edges s ?s0" using assms by (rule same_edges_or)
  have e1: "same_edges ?s0 ?s1"
    by (rule same_edges_if [OF a(1)])
  have e2: "same_edges ?s1 ?s2"
    by (rule same_edges_if [OF a(3)])
  have e3: "same_edges ?s2 ?s3"
    by (rule same_edges_if [OF a(2)])
  have e: "same_edges s ?s3"
    using same_edges_trans [OF e0 same_edges_trans [OF e1 same_edges_trans [OF e2 e3]]] .
  show ?thesis
    unfolding corner_flags_def Let_def
    by (intro same_edges_cases same_edges_refl e)
qed

lemma same_edges_corners: "same_edges s (barrier_corners s)"
proof -
  have "same_edges t (fold (corner_flags x y) dirs t)" for x y t
    by (rule same_edges_fold) (rule same_edges_corner_flags)
  then have "same_edges t ((\<lambda>(x, y) s. fold (corner_flags x y) dirs s) a t)" for a t
    by (cases a) simp
  then show ?thesis
    unfolding barrier_corners_def by (intro same_edges_fold)
qed

lemma fold_invariant:
  assumes "P s" and "\<And>a t. P t \<Longrightarrow> P (f a t)"
  shows "P (fold f xs s)"
  using assms(1) by (induction xs arbitrary: s) (simp_all add: assms(2))

lemma same_tiles_cases:
  "same_tiles s a \<Longrightarrow> same_tiles s b \<Longrightarrow> same_tiles s (if P then a else b)"
  by simp

lemma same_tiles_if: "same_tiles t (if P then barrier_or t x y v else t)"
  using same_tiles_barrier_or same_tiles_refl by (cases P) simp_all

lemma same_tiles_corner_flags: "same_tiles s (corner_flags x y dir s)"
proof -
  let ?x1 = "int x + X dir" and ?y1 = "int y + Y dir"
  let ?x2 = "int x + X (A dir)" and ?y2 = "int y + Y (A dir)"
  let ?x3 = "int x + X dir + X (A dir)" and ?y3 = "int y + Y dir + Y (A dir)"
  let ?s0 = "barrier_or s x y (push_bit 4 dir)"
  let ?s1 = "if in_grid ?s0 ?x1 ?y1
             then barrier_or ?s0 (nat ?x1) (nat ?y1) (push_bit 4 (A dir)) else ?s0"
  let ?s2 = "if in_grid ?s1 ?x2 ?y2
             then barrier_or ?s1 (nat ?x2) (nat ?y2) (push_bit 4 (C dir)) else ?s1"
  let ?s3 = "if in_grid ?s2 ?x3 ?y3
             then barrier_or ?s2 (nat ?x3) (nat ?y3) (push_bit 4 (F dir)) else ?s2"
  have e0: "same_tiles s ?s0" by (rule same_tiles_barrier_or)
  have e1: "same_tiles ?s0 ?s1" by (rule same_tiles_if)
  have e2: "same_tiles ?s1 ?s2" by (rule same_tiles_if)
  have e3: "same_tiles ?s2 ?s3" by (rule same_tiles_if)
  have e: "same_tiles s ?s3"
    using same_tiles_trans [OF e0 same_tiles_trans [OF e1 same_tiles_trans [OF e2 e3]]] .
  show ?thesis
    unfolding corner_flags_def Let_def
    by (intro same_tiles_cases same_tiles_refl e)
qed

lemma same_tiles_corners: "same_tiles s (barrier_corners s)"
proof -
  have "same_tiles t (fold (corner_flags x y) dirs t)" for x y t
    by (rule same_tiles_fold) (rule same_tiles_corner_flags)
  then have "same_tiles t ((\<lambda>(x, y) s. fold (corner_flags x y) dirs s) a t)" for a t
    by (cases a) simp
  then show ?thesis
    unfolding barrier_corners_def by (intro same_tiles_fold)
qed

lemma shuffle_keeps:
  assumes "shuffle rnd s rs = (s', rs')"
  shows "width s' = width s \<and> height s' = height s \<and> cx s' = cx s \<and> cy s' = cy s \<and>
         wrapping s' = wrapping s \<and> barriers s' = barriers s \<and>
         length (tiles s') = length (tiles s)"
proof -
  let ?P = "\<lambda>(t, r). width t = width s \<and> height t = height s \<and> cx t = cx s \<and> cy t = cy s \<and>
         wrapping t = wrapping s \<and> barriers t = barriers s \<and>
         length (tiles t) = length (tiles s)"
  have "?P (shuffle rnd s rs)"
    unfolding shuffle_def
    by (rule fold_invariant) (auto simp: Let_def split: prod.splits)
  then show ?thesis using assms by simp
qed

lemma choose_barriers_returns:
  assumes "in_range rnd" and "n \<le> length bs"
  shows "\<exists>s' bs' rs'. choose_barriers rnd n s bs rs = Inr (s', bs', rs') \<and>
           same_tiles s s' \<and> more_barriers s s'"
  using assms(2)
proof (induction n arbitrary: s bs rs)
  case 0
  then show ?case by (simp add: same_tiles_refl more_barriers_refl)
next
  case (Suc n)
  obtain i rs1 where r: "rnd rs (count234 bs) = (i, rs1)" by (cases "rnd rs (count234 bs)")
  have i: "i < length bs"
    using assms(1) Suc.prems r unfolding in_range_def count234_def
    by (metis Suc_le_lessD fst_conv less_nat_zero_code not_gr_zero)
  obtain x1 y1 d1 where e: "bs ! i = (x1, y1, d1)" by (cases "bs ! i")
  obtain x2 y2 where o: "OFFSET x1 y1 d1 s = (x2, y2)" by (cases "OFFSET x1 y1 d1 s")
  let ?s2 = "barrier_or (barrier_or s x1 y1 d1) x2 y2 (F d1)"
  let ?bs1 = "take i bs @ drop (Suc i) bs"
  have len: "n \<le> length ?bs1" using Suc.prems i by simp
  from Suc.IH [OF len, of ?s2 rs1]
  obtain s' bs' rs' where c: "choose_barriers rnd n ?s2 ?bs1 rs1 = Inr (s', bs', rs')"
    and st: "same_tiles ?s2 s'" and mb: "more_barriers ?s2 s'" by blast
  have "choose_barriers rnd (Suc n) s bs rs = Inr (s', bs', rs')"
    using r i e o c by (simp add: delpos234_def Let_def)
  moreover have "same_tiles s s'"
    using same_tiles_trans [OF same_tiles_trans [OF same_tiles_barrier_or same_tiles_barrier_or] st] .
  moreover have "more_barriers s s'"
    using more_barriers_trans [OF more_barriers_trans [OF more_barriers_or more_barriers_or] mb] .
  ultimately show ?case by blast
qed


section \<open>Net: the candidate edges and the barrier loop\<close>

lemma unshuffled_grid_probability:
  "unshuffled_grid rnd (params\<lparr>barrier_probability := q\<rparr>) rs = unshuffled_grid rnd params rs"
  by (simp add: unshuffled_grid_def blank_state_def)

lemma choose_barriers_more:
  assumes "choose_barriers rnd n s bs rs = Inr (s', bs', rs')"
  shows "more_barriers s s'"
  using assms
proof (induction n arbitrary: s bs rs)
  case 0
  then show ?case by (simp add: more_barriers_refl)
next
  case (Suc n)
  obtain i rs1 where r: "rnd rs (count234 bs) = (i, rs1)" by (cases "rnd rs (count234 bs)")
  show ?case
  proof (cases "i < length bs")
    case False
    then show ?thesis using Suc.prems r by (simp add: delpos234_def)
  next
    case True
    obtain x1 y1 d1 where e: "bs ! i = (x1, y1, d1)" by (cases "bs ! i")
    obtain x2 y2 where o: "OFFSET x1 y1 d1 s = (x2, y2)" by (cases "OFFSET x1 y1 d1 s")
    let ?s2 = "barrier_or (barrier_or s x1 y1 d1) x2 y2 (F d1)"
    have "choose_barriers rnd n ?s2 (take i bs @ drop (Suc i) bs) rs1 = Inr (s', bs', rs')"
      using Suc.prems r True e o by (simp add: delpos234_def Let_def)
    then have "more_barriers ?s2 s'" by (rule Suc.IH)
    then show ?thesis
      using more_barriers_trans [OF more_barriers_trans [OF more_barriers_or more_barriers_or]]
      by blast
  qed
qed

lemma choose_barriers_add:
  "choose_barriers rnd (n + k) s bs rs =
     (case choose_barriers rnd n s bs rs of
        Inl e \<Rightarrow> Inl e
      | Inr (s', bs', rs') \<Rightarrow> choose_barriers rnd k s' bs' rs')"
proof (induction n arbitrary: s bs rs)
  case 0
  show ?case by simp
next
  case (Suc n)
  show ?case
    by (simp add: Suc.IH Let_def split: prod.splits option.splits)
qed

lemma more_barriers_edges:
  assumes "more_barriers s s'"
  shows "barrier_edges s \<subseteq> barrier_edges s'"
  using assms
  by (auto simp: barrier_edges_def more_barriers_def in_cells_def barrier_at_def barrier_def
      index_def)

lemma same_edges_edges:
  assumes "same_edges s s'"
  shows "barrier_edges s' = barrier_edges s"
  using assms
  by (auto simp: barrier_edges_def same_edges_def in_cells_def barrier_at_def barrier_def
      index_def)

lemma fold_invariant_mem:
  assumes "P s" and "\<And>a t. a \<in> set xs \<Longrightarrow> P t \<Longrightarrow> P (f a t)"
  shows "P (fold f xs s)"
  using assms
proof (induction xs arbitrary: s)
  case Nil
  then show ?case by simp
next
  case (Cons a xs)
  have "P (f a s)" using Cons.prems by simp
  then show ?case using Cons by simp
qed

lemma set_cells: "set (cells s) = {c. in_cells s c}"
  by (auto simp: cells_def in_cells_def)

lemma candidates_ok_if:
  assumes "candidates_ok s t" and "c \<Longrightarrow> candidate s e"
  shows "candidates_ok s (if c then add234 t e else t)"
  using assms by (auto simp: candidates_ok_def distinct_add234 set_add234)

lemma barrier_candidates_ok: "candidates_ok s (barrier_candidates s)"
  unfolding barrier_candidates_def
proof (rule fold_invariant_mem)
  show "candidates_ok s []" by (simp add: candidates_ok_def)
next
  fix a :: cell and t :: "xyd list"
  assume a: "a \<in> set (cells s)" and t: "candidates_ok s t"
  obtain x y where xy: "a = (x, y)" by (cases a)
  have c: "in_cells s (x, y)" using a xy by (simp add: set_cells)
  let ?c1 = "tile s x y AND R = 0 \<and> (wrapping s \<or> int x < int (width s) - 1)"
  let ?c2 = "tile s x y AND D = 0 \<and> (wrapping s \<or> int y < int (height s) - 1)"
  let ?b1 = "if ?c1 then add234 t (new_xyd x y R) else t"
  let ?b2 = "if ?c2 then add234 ?b1 (new_xyd x y D) else ?b1"
  have "?c1 \<Longrightarrow> candidate s (new_xyd x y R)"
    using c by (auto simp: candidate_def exits_def new_xyd_def)
  then have 1: "candidates_ok s ?b1" using t by (rule candidates_ok_if [rotated])
  have "?c2 \<Longrightarrow> candidate s (new_xyd x y D)"
    using c by (auto simp: candidate_def exits_def new_xyd_def)
  then have "candidates_ok s ?b2" using 1 by (rule candidates_ok_if [rotated])
  then show "candidates_ok s ((\<lambda>(x, y) bs. let b1 = (if tile s x y AND R = 0 \<and>
                          (wrapping s \<or> int x < int (width s) - 1)
                       then add234 bs (new_xyd x y R) else bs);
                 b2 = (if tile s x y AND D = 0 \<and>
                          (wrapping s \<or> int y < int (height s) - 1)
                       then add234 b1 (new_xyd x y D) else b1)
             in b2) a t)"
    unfolding xy by (simp only: Let_def prod.case)
qed

lemma barrier_or_same_grid [simp]:
  "in_cells (barrier_or s x y v) = in_cells s"
  "neighbour (barrier_or s x y v) = neighbour s"
  "exits (barrier_or s x y v) = exits s"
  "index (barrier_or s x y v) = index s"
  by (auto simp: fun_eq_iff in_cells_def neighbour_def OFFSET_def exits_def index_def)

lemma barrier_at_or:
  assumes "length (barriers s) = width s * height s" and "in_cells s c" and "in_cells s c'"
  shows "barrier_at (barrier_or s (fst c) (snd c) v) c'
           = (if c' = c then barrier_at s c OR v else barrier_at s c')"
proof (cases "c' = c")
  case True
  then show ?thesis
    using index_lt [OF assms(2)] assms(1)
    by (simp add: barrier_at_def barrier_def barrier_or_def index_def)
next
  case False
  then have "snd c * width s + fst c \<noteq> snd c' * width s + fst c'"
    using index_inj [OF assms(2,3)] by (auto simp: index_def)
  then show ?thesis
    using False by (simp add: barrier_at_def barrier_def barrier_or_def index_def)
qed

lemma dir_bit_enum: "\<forall>v\<in>set dirs. \<forall>d\<in>set dirs. v AND d \<noteq> 0 \<longleftrightarrow> v = d"
  by (simp add: dirs_def)

lemma dir_bit: "v \<in> set dirs \<Longrightarrow> d \<in> set dirs \<Longrightarrow> v AND d \<noteq> 0 \<longleftrightarrow> v = d"
  using dir_bit_enum by blast

lemma borders_only_or:
  assumes "borders_only s" and "in_cells s c" and "v \<in> set dirs" and "\<not> exits s c v"
  shows "borders_only (barrier_or s (fst c) (snd c) v)"
proof -
  have len: "length (barriers s) = width s * height s"
    using assms(1) by (simp add: borders_only_def)
  have old: "\<And>c d. in_cells s c \<Longrightarrow> d \<in> set dirs \<Longrightarrow> barrier_at s c AND d \<noteq> 0
      \<Longrightarrow> \<not> exits s c d"
    using assms(1) unfolding borders_only_def by blast
  have "\<not> exits s c' d"
    if "in_cells s c'" "d \<in> set dirs"
      "barrier_at (barrier_or s (fst c) (snd c) v) c' AND d \<noteq> 0" for c' d
  proof (cases "c' = c \<and> d = v")
    case True
    then show ?thesis using assms(4) by simp
  next
    case False
    then have "barrier_at s c' AND d \<noteq> 0"
      using that barrier_at_or [OF len assms(2) that(1), of v] dir_bit [OF assms(3) that(2)]
      by (auto simp: or_and_nonzero split: if_splits)
    then show ?thesis using old that(1,2) by blast
  qed
  then show ?thesis using len by (simp add: borders_only_def)
qed

lemma start_borders_only:
  assumes "valid_params params"
  shows "borders_only (start_state params)"
proof -
  let ?b = "blank_state params"
  let ?w = "nat (pwidth params)" and ?h = "nat (pheight params)"
  have wh: "0 < ?w" "0 < ?h" using assms by (simp_all add: valid_params_def)
  have dims: "width ?b = ?w" "height ?b = ?h" "wrapping ?b = pwrapping params"
    by (simp_all add: blank_state_def Let_def)
  have "index ?b (fst c) (snd c) < ?w * ?h" if "in_cells ?b c" for c
    using index_lt [OF that] dims by simp
  then have z: "barrier_at ?b c = 0" if "in_cells ?b c" for c
    using that by (simp add: barrier_at_def barrier_def blank_state_def Let_def)
  have "length (barriers ?b) = width ?b * height ?b"
    by (simp add: blank_state_def Let_def)
  moreover have "\<not> exits ?b c d" if "in_cells ?b c" "barrier_at ?b c AND d \<noteq> 0" for c d
    using z [OF that(1)] that(2) by simp
  ultimately have b0: "borders_only ?b"
    unfolding borders_only_def by blast
  show ?thesis
  proof (cases "pwrapping params")
    case True
    then show ?thesis using b0 dims by (simp add: start_state_def border_barriers_def)
  next
    case False
    let ?P = "\<lambda>t. borders_only t \<and> width t = ?w \<and> height t = ?h \<and> \<not> wrapping t"
    let ?f = "\<lambda>x s. barrier_or (barrier_or s x 0 U) x (height s - 1) D"
    let ?g = "\<lambda>y s. barrier_or (barrier_or s 0 y L) (width s - 1) y R"
    have f: "?P (?f x t)" if "x \<in> set [0..<width ?b]" "?P t" for x t
    proof -
      have x: "x < ?w" using that(1) dims by simp
      have c1: "in_cells t (x, 0)" and c2: "in_cells t (x, ?h - 1)"
        using x wh that(2) by (simp_all add: in_cells_def)
      have "borders_only (barrier_or t (fst (x, 0::nat)) (snd (x, 0::nat)) U)"
        using that(2) c1 by (intro borders_only_or) (auto simp: dirs_are exits_def)
      then have 1: "borders_only (barrier_or t x 0 U)" by simp
      have "borders_only (barrier_or (barrier_or t x 0 U) (fst (x, ?h - 1)) (snd (x, ?h - 1)) D)"
        using 1 c2 that(2) wh
        by (intro borders_only_or) (auto simp: dirs_are exits_def of_nat_diff)
      then show ?thesis using that(2) by simp
    qed
    have g: "?P (?g y t)" if "y \<in> set [0..<height ?b]" "?P t" for y t
    proof -
      have y: "y < ?h" using that(1) dims by simp
      have c1: "in_cells t (0, y)" and c2: "in_cells t (?w - 1, y)"
        using y wh that(2) by (simp_all add: in_cells_def)
      have "borders_only (barrier_or t (fst (0::nat, y)) (snd (0::nat, y)) L)"
        using that(2) c1 by (intro borders_only_or) (auto simp: dirs_are exits_def)
      then have 1: "borders_only (barrier_or t 0 y L)" by simp
      have "borders_only (barrier_or (barrier_or t 0 y L) (fst (?w - 1, y)) (snd (?w - 1, y)) R)"
        using 1 c2 that(2) wh
        by (intro borders_only_or) (auto simp: dirs_are exits_def of_nat_diff)
      then show ?thesis using that(2) by simp
    qed
    have "?P ?b" using b0 dims False by simp
    then have "?P (fold ?f [0..<width ?b] ?b)"
      using f by (rule fold_invariant_mem)
    then have "?P (fold ?g [0..<height ?b] (fold ?f [0..<width ?b] ?b))"
      using g by (rule fold_invariant_mem)
    then show ?thesis
      using False dims
      by (simp add: start_state_def border_barriers_def Let_def same_tiles_def)
  qed
qed

lemma opposite_not_candidate:
  assumes "d1 = R \<or> d1 = D" and "d = R \<or> d = D"
  shows "F d1 AND d = 0" and "d1 AND d \<noteq> 0 \<longleftrightarrow> d1 = d"
  using assms by (auto simp: R_def D_def F_def)

lemma choose_barriers_marks:
  assumes "in_range rnd" and "0 < width s" and "0 < height s"
    and "length (barriers s) = width s * height s"
    and "n \<le> length bs" and "distinct bs"
    and "\<forall>e\<in>set bs. candidate s e"
  shows "\<exists>s' bs' rs'. choose_barriers rnd n s bs rs = Inr (s', bs', rs') \<and>
           distinct bs' \<and> set bs' \<subseteq> set bs \<and> length bs' + n = length bs \<and>
           (\<forall>x y d. in_cells s (x, y) \<and> (d = R \<or> d = D) \<longrightarrow>
              (barrier_at s' (x, y) AND d \<noteq> 0 \<longleftrightarrow>
                 barrier_at s (x, y) AND d \<noteq> 0 \<or> ((x, y, d) \<in> set bs \<and> (x, y, d) \<notin> set bs')))"
  using assms(2-)
proof (induction n arbitrary: s bs rs)
  case 0
  then show ?case by auto
next
  case (Suc n)
  obtain i rs1 where r: "rnd rs (count234 bs) = (i, rs1)" by (cases "rnd rs (count234 bs)")
  have i: "i < length bs"
    using assms(1) Suc.prems(4) r unfolding in_range_def count234_def
    by (metis Suc_le_lessD fst_conv less_nat_zero_code not_gr_zero)
  obtain x1 y1 d1 where e: "bs ! i = (x1, y1, d1)" by (cases "bs ! i")
  obtain x2 y2 where o: "OFFSET x1 y1 d1 s = (x2, y2)" by (cases "OFFSET x1 y1 d1 s")
  let ?sa = "barrier_or s x1 y1 d1"
  let ?s2 = "barrier_or ?sa x2 y2 (F d1)"
  let ?bs1 = "take i bs @ drop (Suc i) bs"
  have mem: "(x1, y1, d1) \<in> set bs" using i e by (metis nth_mem)
  then have cand: "in_cells s (x1, y1)" "d1 = R \<or> d1 = D"
    using Suc.prems(6) by (auto simp: candidate_def)
  have c2: "in_cells s (x2, y2)"
    using OFFSET_in_grid [OF Suc.prems(1,2) o] by (simp add: in_cells_def)
  have d1: "distinct ?bs1" using distinct_delpos [OF Suc.prems(5)] .
  have s1: "set ?bs1 = set bs - {(x1, y1, d1)}" using set_delpos [OF Suc.prems(5) i] e by simp
  have len: "n \<le> length ?bs1" using Suc.prems(4) i by simp
  have len2: "length (barriers ?s2) = width ?s2 * height ?s2" using Suc.prems(3) by simp
  have c1: "\<forall>e\<in>set ?bs1. candidate ?s2 e"
    using Suc.prems(6) s1 by (auto simp: candidate_def)
  from Suc.IH [OF _ _ len2 len d1 c1, of rs1] Suc.prems(1,2)
  obtain s' bs' rs' where c: "choose_barriers rnd n ?s2 ?bs1 rs1 = Inr (s', bs', rs')"
    and d': "distinct bs'" and sub: "set bs' \<subseteq> set ?bs1" and l: "length bs' + n = length ?bs1"
    and marks: "\<And>x y d. in_cells s (x, y) \<Longrightarrow> d = R \<or> d = D \<Longrightarrow>
          (barrier_at s' (x, y) AND d \<noteq> 0 \<longleftrightarrow>
             barrier_at ?s2 (x, y) AND d \<noteq> 0 \<or> ((x, y, d) \<in> set ?bs1 \<and> (x, y, d) \<notin> set bs'))"
    by auto
  have run: "choose_barriers rnd (Suc n) s bs rs = Inr (s', bs', rs')"
    using r i e o c by (simp add: delpos234_def Let_def)
  have step: "barrier_at ?s2 (x, y) AND d \<noteq> 0 \<longleftrightarrow>
        barrier_at s (x, y) AND d \<noteq> 0 \<or> (x, y, d) = (x1, y1, d1)"
    if xy: "in_cells s (x, y)" and d: "d = R \<or> d = D" for x y d
  proof -
    have lena: "length (barriers ?sa) = width ?sa * height ?sa" using Suc.prems(3) by simp
    have a: "barrier_at ?sa (x, y) = (if (x, y) = (x1, y1) then barrier_at s (x1, y1) OR d1
                                    else barrier_at s (x, y))"
      using barrier_at_or [OF Suc.prems(3) cand(1) xy, of d1] by simp
    have b: "barrier_at ?s2 (x, y) = (if (x, y) = (x2, y2) then barrier_at ?sa (x2, y2) OR F d1
                                    else barrier_at ?sa (x, y))"
      using barrier_at_or [OF lena, of "(x2, y2)" "(x, y)" "F d1"] c2 xy by simp
    note oc = opposite_not_candidate [OF cand(2) d]
    have "barrier_at ?s2 (x, y) AND d \<noteq> 0 \<longleftrightarrow> barrier_at ?sa (x, y) AND d \<noteq> 0"
    proof (cases "(x, y) = (x2, y2)")
      case True
      have "(barrier_at ?sa (x2, y2) OR F d1) AND d \<noteq> 0
              \<longleftrightarrow> barrier_at ?sa (x2, y2) AND d \<noteq> 0"
        unfolding or_and_nonzero using oc(1) by simp
      then show ?thesis using b True by simp
    next
      case False
      then show ?thesis using b by auto
    qed
    moreover have "barrier_at ?sa (x, y) AND d \<noteq> 0 \<longleftrightarrow>
        barrier_at s (x, y) AND d \<noteq> 0 \<or> (x, y, d) = (x1, y1, d1)"
    proof (cases "(x, y) = (x1, y1)")
      case True
      have "(barrier_at s (x1, y1) OR d1) AND d \<noteq> 0
              \<longleftrightarrow> barrier_at s (x1, y1) AND d \<noteq> 0 \<or> d1 = d"
        unfolding or_and_nonzero using oc(2) by simp
      then show ?thesis using a True by auto
    next
      case False
      then show ?thesis using a by auto
    qed
    ultimately show ?thesis by simp
  qed
  have "barrier_at s' (x, y) AND d \<noteq> 0 \<longleftrightarrow>
          barrier_at s (x, y) AND d \<noteq> 0 \<or> ((x, y, d) \<in> set bs \<and> (x, y, d) \<notin> set bs')"
    if xy: "in_cells s (x, y)" and d: "d = R \<or> d = D" for x y d
    using marks [OF xy d] step [OF xy d] s1 sub mem by auto
  moreover have "set bs' \<subseteq> set bs" using sub s1 by auto
  moreover have "length bs' + Suc n = length bs" using l i by simp
  ultimately show ?case using run d' by blast
qed

lemma length_not_removed:
  assumes "distinct xs" and "distinct ys" and "set ys \<subseteq> set xs"
  shows "length (filter (\<lambda>e. e \<notin> set ys) xs) + length ys = length xs"
proof -
  have "set (filter (\<lambda>e. e \<in> set ys) xs) = set ys" using assms(3) by auto
  moreover have "distinct (filter (\<lambda>e. e \<in> set ys) xs)" using assms(1) by simp
  ultimately have "length (filter (\<lambda>e. e \<in> set ys) xs) = length ys"
    using assms(2) by (metis distinct_card)
  then show ?thesis
    using sum_length_filter_compl [of "\<lambda>e. e \<in> set ys" xs] by simp
qed


section \<open>Net: the flood fill on the grid before the shuffle\<close>

lemma scanned_refl: "scanned s u u"
  by (cases u) (simp add: scanned_def)

lemma scanned_trans:
  assumes "scanned s u v" and "scanned s v z"
  shows "scanned s u z"
proof -
  obtain a t where p: "u = (a, t)" by (cases u)
  obtain a' t' where q: "v = (a', t')" by (cases v)
  obtain a'' t'' where r: "z = (a'', t'')" by (cases z)
  have 1: "length a' = length a" "\<And>c. in_cells s c \<Longrightarrow> marked s a c \<Longrightarrow> marked s a' c"
    "set t \<subseteq> set t'"
    "\<And>e. e \<in> set t' \<Longrightarrow> e \<in> set t \<or> (\<exists>c. in_cells s c \<and> e = (fst c, snd c, 0))"
    "\<And>c. in_cells s c \<Longrightarrow> marked s a' c \<Longrightarrow> \<not> marked s a c \<Longrightarrow> (fst c, snd c, 0) \<in> set t'"
    using assms(1) unfolding scanned_def p q by auto
  have 2: "length a'' = length a'" "\<And>c. in_cells s c \<Longrightarrow> marked s a' c \<Longrightarrow> marked s a'' c"
    "set t' \<subseteq> set t''"
    "\<And>e. e \<in> set t'' \<Longrightarrow> e \<in> set t' \<or> (\<exists>c. in_cells s c \<and> e = (fst c, snd c, 0))"
    "\<And>c. in_cells s c \<Longrightarrow> marked s a'' c \<Longrightarrow> \<not> marked s a' c \<Longrightarrow> (fst c, snd c, 0) \<in> set t''"
    using assms(2) unfolding scanned_def q r by auto
  have "length a'' = length a" using 1(1) 2(1) by simp
  moreover have "\<forall>c. in_cells s c \<and> marked s a c \<longrightarrow> marked s a'' c" using 1(2) 2(2) by blast
  moreover have "set t \<subseteq> set t''" using 1(3) 2(3) by blast
  moreover have "\<forall>e\<in>set t''. e \<in> set t \<or> (\<exists>c. in_cells s c \<and> e = (fst c, snd c, 0))"
    using 1(4) 2(4) by blast
  moreover have "\<forall>c. in_cells s c \<and> marked s a'' c \<and> \<not> marked s a c
             \<longrightarrow> (fst c, snd c, 0) \<in> set t''"
    using 1(5) 2(5) 2(3) by blast
  ultimately show ?thesis unfolding scanned_def p r by simp
qed

lemma marked_update:
  assumes "length a = width s * height s" and "in_cells s c2" and "in_cells s c"
  shows "marked s (a[index s (fst c2) (snd c2) := ACTIVE]) c \<longleftrightarrow> marked s a c \<or> c = c2"
proof (cases "c = c2")
  case True
  then show ?thesis
    using index_lt [OF assms(2)] assms(1) by (simp add: marked_def ACTIVE_def)
next
  case False
  then have "index s (fst c2) (snd c2) \<noteq> index s (fst c) (snd c)"
    using index_inj [OF assms(2,3)] by auto
  then show ?thesis using False by (simp add: marked_def)
qed

lemma spread_scanned:
  assumes "0 < width s" and "0 < height s" and "length a = width s * height s"
    and "in_cells s c1"
  shows "scanned s (a, t) (spread s (fst c1) (snd c1) d (a, t))"
    and "passable s c1 d \<Longrightarrow>
           marked s (fst (spread s (fst c1) (snd c1) d (a, t))) (neighbour s c1 d)"
proof -
  let ?c2 = "neighbour s c1 d"
  have c2: "in_cells s ?c2" using assms(1,2) by (rule neighbour_in_cells)
  obtain x2 y2 where o: "OFFSET (fst c1) (snd c1) d s = (x2, y2)"
    by (cases "OFFSET (fst c1) (snd c1) d s")
  then have n: "?c2 = (x2, y2)" by (simp add: neighbour_def)
  let ?go = "passable s c1 d \<and> \<not> marked s a ?c2"
  have sp: "spread s (fst c1) (snd c1) d (a, t) =
      (if ?go then (a[index s (fst ?c2) (snd ?c2) := ACTIVE], add234 t (fst ?c2, snd ?c2, 0))
       else (a, t))"
    using o n
    by (simp add: spread_def passable_def marked_def mask_at_def barrier_at_def new_xyd_def)
  have upd: "\<And>c. in_cells s c \<Longrightarrow>
      marked s (a[index s (fst ?c2) (snd ?c2) := ACTIVE]) c \<longleftrightarrow> marked s a c \<or> c = ?c2"
    using marked_update [OF assms(3) c2] .
  show "scanned s (a, t) (spread s (fst c1) (snd c1) d (a, t))"
  proof (cases ?go)
    case False
    then show ?thesis unfolding sp by (auto simp add: scanned_refl)
  next
    case True
    then have eq: "spread s (fst c1) (snd c1) d (a, t) =
        (a[index s (fst ?c2) (snd ?c2) := ACTIVE], add234 t (fst ?c2, snd ?c2, 0))"
      unfolding sp by simp
    have "\<forall>c. in_cells s c \<and> marked s a c \<longrightarrow>
        marked s (a[index s (fst ?c2) (snd ?c2) := ACTIVE]) c"
      using upd by blast
    moreover have "\<forall>e\<in>set (add234 t (fst ?c2, snd ?c2, 0)).
        e \<in> set t \<or> (\<exists>c. in_cells s c \<and> e = (fst c, snd c, 0))"
      using c2 unfolding set_add234 by blast
    moreover have "\<forall>c. in_cells s c \<and> marked s (a[index s (fst ?c2) (snd ?c2) := ACTIVE]) c \<and>
        \<not> marked s a c \<longrightarrow> (fst c, snd c, 0) \<in> set (add234 t (fst ?c2, snd ?c2, 0))"
      using upd unfolding set_add234 by blast
    moreover have "set t \<subseteq> set (add234 t (fst ?c2, snd ?c2, 0))"
      unfolding set_add234 by blast
    ultimately show ?thesis unfolding eq scanned_def by simp
  qed
  show "marked s (fst (spread s (fst c1) (snd c1) d (a, t))) ?c2" if pa: "passable s c1 d"
  proof (cases "marked s a ?c2")
    case True
    then show ?thesis unfolding sp by simp
  next
    case False
    then show ?thesis unfolding sp using pa upd [OF c2] by simp
  qed
qed

lemma scannedD:
  assumes "scanned s (a, t) (a', t')"
  shows "length a' = length a"
    and "\<And>c. in_cells s c \<Longrightarrow> marked s a c \<Longrightarrow> marked s a' c"
    and "set t \<subseteq> set t'"
    and "\<And>e. e \<in> set t' \<Longrightarrow> e \<in> set t \<or> (\<exists>c. in_cells s c \<and> e = (fst c, snd c, 0))"
    and "\<And>c. in_cells s c \<Longrightarrow> marked s a' c \<Longrightarrow> \<not> marked s a c \<Longrightarrow> (fst c, snd c, 0) \<in> set t'"
  using assms unfolding scanned_def by auto

lemma spread_all_scanned:
  assumes "0 < width s" and "0 < height s" and "length a = width s * height s"
    and "in_cells s c1"
    and "fold (spread s (fst c1) (snd c1)) dirs (a, t) = (a', t')"
  shows "scanned s (a, t) (a', t')"
    and "\<forall>d\<in>set dirs. passable s c1 d \<longrightarrow> marked s a' (neighbour s c1 d)"
proof -
  let ?sp = "spread s (fst c1) (snd c1)"
  obtain a1 t1 where s1: "?sp 1 (a, t) = (a1, t1)" by (cases "?sp 1 (a, t)")
  obtain a2 t2 where s2: "?sp 2 (a1, t1) = (a2, t2)" by (cases "?sp 2 (a1, t1)")
  obtain a3 t3 where s3: "?sp 4 (a2, t2) = (a3, t3)" by (cases "?sp 4 (a2, t2)")
  have s4: "?sp 8 (a3, t3) = (a', t')"
    using assms(5) s1 s2 s3 by (simp add: dirs_def)
  note n = neighbour_in_cells [OF assms(1,2)]
  have k1: "scanned s (a, t) (a1, t1)"
    using spread_scanned(1) [where d = 1 and t = t, OF assms(1,2,3,4)] s1 by simp
  have m1: "marked s a1 (neighbour s c1 1)" if "passable s c1 1"
    using spread_scanned(2) [where d = 1 and t = t, OF assms(1,2,3,4) that] s1 by simp
  have l1: "length a1 = width s * height s"
    using scannedD(1) [OF k1] assms(3) by simp
  have k2: "scanned s (a1, t1) (a2, t2)"
    using spread_scanned(1) [where d = 2 and t = t1, OF assms(1,2) l1 assms(4)] s2 by simp
  have m2: "marked s a2 (neighbour s c1 2)" if "passable s c1 2"
    using spread_scanned(2) [where d = 2 and t = t1, OF assms(1,2) l1 assms(4) that] s2 by simp
  have l2: "length a2 = width s * height s"
    using scannedD(1) [OF k2] l1 by simp
  have k3: "scanned s (a2, t2) (a3, t3)"
    using spread_scanned(1) [where d = 4 and t = t2, OF assms(1,2) l2 assms(4)] s3 by simp
  have m3: "marked s a3 (neighbour s c1 4)" if "passable s c1 4"
    using spread_scanned(2) [where d = 4 and t = t2, OF assms(1,2) l2 assms(4) that] s3 by simp
  have l3: "length a3 = width s * height s"
    using scannedD(1) [OF k3] l2 by simp
  have k4: "scanned s (a3, t3) (a', t')"
    using spread_scanned(1) [where d = 8 and t = t3, OF assms(1,2) l3 assms(4)] s4 by simp
  have m4: "marked s a' (neighbour s c1 8)" if "passable s c1 8"
    using spread_scanned(2) [where d = 8 and t = t3, OF assms(1,2) l3 assms(4) that] s4 by simp
  show "scanned s (a, t) (a', t')"
    using k1 k2 k3 k4 scanned_trans by blast
  have "marked s a' (neighbour s c1 1)" if "passable s c1 1"
    using m1 [OF that] scannedD(2) [OF k2 n] scannedD(2) [OF k3 n] scannedD(2) [OF k4 n]
    by blast
  moreover have "marked s a' (neighbour s c1 2)" if "passable s c1 2"
    using m2 [OF that] scannedD(2) [OF k3 n] scannedD(2) [OF k4 n] by blast
  moreover have "marked s a' (neighbour s c1 4)" if "passable s c1 4"
    using m3 [OF that] scannedD(2) [OF k4 n] by blast
  ultimately show "\<forall>d\<in>set dirs. passable s c1 d \<longrightarrow> marked s a' (neighbour s c1 d)"
    using m4 by (simp add: dirs_def)
qed

lemma floodingD:
  assumes "flooding s active todo"
  shows "length active = width s * height s"
    and "\<And>x y d. (x, y, d) \<in> set todo \<Longrightarrow> in_cells s (x, y) \<and> d = 0"
    and "\<And>c. in_cells s c \<Longrightarrow> marked s active c \<Longrightarrow> (fst c, snd c, 0) \<notin> set todo \<Longrightarrow>
           \<forall>d\<in>set dirs. passable s c d \<longrightarrow> marked s active (neighbour s c d)"
  using assms unfolding flooding_def by blast+

lemma flooding_step:
  assumes "0 < width s" and "0 < height s"
    and "flooding s active ((x1, y1, d1) # rest)"
    and "fold (spread s x1 y1) dirs (active, rest) = (a1, t1)"
  shows "flooding s a1 t1"
proof -
  let ?c1 = "(x1, y1)"
  note len = floodingD(1) [OF assms(3)]
  have c1: "in_cells s ?c1" and d1: "d1 = 0"
    using floodingD(2) [OF assms(3), of x1 y1 d1] by simp_all
  have f: "fold (spread s (fst ?c1) (snd ?c1)) dirs (active, rest) = (a1, t1)"
    using assms(4) by simp
  note sc = spread_all_scanned(1) [OF assms(1,2) len c1 f]
  note cl = spread_all_scanned(2) [OF assms(1,2) len c1 f]
  have l1: "length a1 = width s * height s"
    using scannedD(1) [OF sc] len by simp
  have todo: "in_cells s (x, y) \<and> d = 0" if "(x, y, d) \<in> set t1" for x y d
  proof -
    from scannedD(4) [OF sc that]
    show ?thesis
    proof
      assume "(x, y, d) \<in> set rest"
      then show ?thesis using floodingD(2) [OF assms(3), of x y d] by simp
    next
      assume "\<exists>c. in_cells s c \<and> (x, y, d) = (fst c, snd c, 0)"
      then show ?thesis by auto
    qed
  qed
  have closed: "(fst c, snd c, 0) \<in> set t1 \<or>
      (\<forall>d\<in>set dirs. passable s c d \<longrightarrow> marked s a1 (neighbour s c d))"
    if c: "in_cells s c" and m: "marked s a1 c" for c
  proof (cases "c = ?c1")
    case True
    then show ?thesis using cl by simp
  next
    case other: False
    show ?thesis
    proof (cases "marked s active c")
      case False
      then show ?thesis using scannedD(5) [OF sc c m] by simp
    next
      case True
      show ?thesis
      proof (cases "(fst c, snd c, 0) \<in> set ((x1, y1, d1) # rest)")
        case True
        then have "(fst c, snd c, 0) \<in> set rest" using other by (cases c) auto
        then show ?thesis using scannedD(3) [OF sc] by blast
      next
        case False
        from floodingD(3) [OF assms(3) c True False]
        have "\<forall>d\<in>set dirs. passable s c d \<longrightarrow> marked s active (neighbour s c d)" .
        then have "\<forall>d\<in>set dirs. passable s c d \<longrightarrow> marked s a1 (neighbour s c d)"
          using scannedD(2) [OF sc neighbour_in_cells [OF assms(1,2)]] by blast
        then show ?thesis by simp
      qed
    qed
  qed
  show ?thesis
    unfolding flooding_def using l1 todo closed by blast
qed

lemma flood_closed:
  assumes "0 < width s" and "0 < height s" and "flooding s active todo"
  shows "\<exists>active'. flood s active todo = Some (active', []) \<and> keeps_marks active active' \<and>
           flooding s active' []"
  using assms(3)
proof (induction "2 * unmarked active + length todo" arbitrary: active todo rule: less_induct)
  case less
  note len = floodingD(1) [OF less.prems]
  show ?case
  proof (cases todo)
    case Nil
    then show ?thesis
      using less.prems by (subst flood.simps) (simp add: delpos234_def keeps_marks_refl)
  next
    case (Cons e rest)
    obtain x1 y1 d where e: "e = (x1, y1, d)" by (cases e)
    obtain a1 t1 where f: "fold (spread s x1 y1) dirs (active, rest) = (a1, t1)"
      by (cases "fold (spread s x1 y1) dirs (active, rest)")
    note m = spread_all_measure [OF assms(1,2) len f]
    have fl: "flooding s a1 t1"
      using flooding_step [OF assms(1,2) _ f] less.prems Cons e by simp
    have "2 * unmarked a1 + length t1 < 2 * unmarked active + length todo"
      using m Cons by simp
    from less.hyps [OF this fl]
    obtain active' where r: "flood s a1 t1 = Some (active', [])"
      and k: "keeps_marks a1 active'" and c: "flooding s active' []" by blast
    have "flood s active todo = flood s a1 t1"
      by (subst flood.simps) (simp add: delpos234_def Cons e f)
    then show ?thesis
      using r k c m keeps_marks_trans by auto
  qed
qed

lemma start_flooding:
  assumes "in_cells s c0"
  shows "flooding s ((replicate (width s * height s) 0)[index s (fst c0) (snd c0) := ACTIVE])
           (add234 [] (new_xyd (fst c0) (snd c0) 0))"
proof -
  let ?a0 = "replicate (width s * height s) (0::int)"
  have len: "length ?a0 = width s * height s" by simp
  have "\<not> marked s ?a0 c" if "in_cells s c" for c
    using index_lt [OF that] by (simp add: marked_def)
  then have "c = c0" if "in_cells s c" and
      "marked s (?a0[index s (fst c0) (snd c0) := ACTIVE]) c" for c
    using marked_update [OF len assms that(1)] that by blast
  then have "\<forall>c. in_cells s c \<and> marked s (?a0[index s (fst c0) (snd c0) := ACTIVE]) c \<longrightarrow>
      (fst c, snd c, 0) \<in> {(fst c0, snd c0, 0)}"
    by blast
  moreover have "\<forall>x y d. (x, y, d) \<in> {(fst c0, snd c0, 0::int)} \<longrightarrow> in_cells s (x, y) \<and> d = 0"
    using assms by simp
  ultimately show ?thesis
    unfolding flooding_def set_add234 new_xyd_def by simp
qed

lemma flooded_reachable:
  assumes "0 < width s" and "0 < height s" and "flooding s active []"
    and "in_cells s (centre s)" and "marked s active (centre s)"
    and "\<And>c d. in_cells s c \<Longrightarrow> linked s c d \<Longrightarrow> passable s c d"
    and "reachable s c"
  shows "in_cells s c \<and> marked s active c"
  using assms(7)
proof (induction rule: reachable.induct)
  case reachable_centre
  show ?case using assms(4,5) by simp
next
  case (reachable_step c d)
  then have c: "in_cells s c" and m: "marked s active c" by simp_all
  have d: "d \<in> set dirs" using reachable_step.hyps(2) by (simp add: linked_def)
  have "passable s c d" using assms(6) [OF c reachable_step.hyps(2)] .
  moreover have "\<forall>d\<in>set dirs. passable s c d \<longrightarrow> marked s active (neighbour s c d)"
    using floodingD(3) [OF assms(3) c m] by simp
  ultimately have "marked s active (neighbour s c d)" using d by blast
  then show ?case using neighbour_in_cells [OF assms(1,2)] by simp
qed

lemma compute_active_reachable:
  assumes "0 < width s" and "0 < height s" and "in_cells s (centre s)"
    and "\<And>c d. in_cells s c \<Longrightarrow> linked s c d \<Longrightarrow> passable s c d"
  shows "\<exists>active. compute_active s = Some (Inr active) \<and>
           (\<forall>c. reachable s c \<longrightarrow> marked s active c)"
proof -
  let ?k = "index s (cx s) (cy s)"
  let ?a1 = "(replicate (width s * height s) (0::int))[?k := ACTIVE]"
  let ?todo = "add234 [] (new_xyd (cx s) (cy s) 0)"
  have "flooding s ?a1 ?todo"
    using start_flooding [OF assms(3)] by (simp add: centre_def)
  from flood_closed [OF assms(1,2) this]
  obtain active where f: "flood s ?a1 ?todo = Some (active, [])"
    and km: "keeps_marks ?a1 active" and fl: "flooding s active []" by blast
  have "?k < width s * height s"
    using index_lt [OF assms(3)] by (simp add: centre_def)
  then have "?a1 ! ?k = ACTIVE" by simp
  then have "active ! ?k = ACTIVE" using km by (simp add: keeps_marks_def)
  then have m: "marked s active (centre s)"
    by (simp add: marked_def centre_def ACTIVE_def)
  have "compute_active s = Some (Inr active)"
    using f by (simp add: compute_active_def count234_def)
  moreover have "marked s active c" if "reachable s c" for c
    using flooded_reachable [OF assms(1,2) fl assms(3) m assms(4) that] by simp
  ultimately show ?thesis by blast
qed

lemma all_active_marked:
  "all_active s active \<longleftrightarrow> (\<forall>c. in_cells s c \<longrightarrow> marked s active c)"
  by (auto simp: all_active_def list_all_iff in_cells_def marked_def)

text \<open>
  Claim C6. For every random source that draws within the size asked for, every random
  state and all valid parameters: on the grid the generator holds before the shuffle,
  whose barrier array carries no barrier of the loop of lines 470-495,
  \<^verbatim>\<open>compute_active\<close> returns an array in which every cell of the grid is marked.
\<close>

theorem unshuffled_all_active:
  assumes "in_range rnd" and "valid_params params"
  shows "\<exists>s rs' active. unshuffled_grid rnd params rs = Some (Inr (s, rs')) \<and>
           compute_active s = Some (Inr active) \<and> all_active s active"
proof -
  from unshuffled_grid_returns [OF assms, of rs]
  obtain s rs' where u: "unshuffled_grid rnd params rs = Some (Inr (s, rs'))"
    and g: "growing s []"
    and same: "width s = nat (pwidth params)" "height s = nat (pheight params)"
      "wrapping s = pwrapping params" "barriers s = barriers (start_state params)"
    by blast
  note gd = growingD [OF g]
  note ok = grid_okD [OF gd(1)]
  have "borders_only s"
    using start_borders_only [OF assms(2)] same
    by (simp add: borders_only_def barrier_at_def barrier_def index_def exits_def in_cells_def
        start_state_fields)
  then have bo: "\<not> exits s c d" if "in_cells s c" "d \<in> set dirs" "barrier_at s c AND d \<noteq> 0"
    for c d
    using that unfolding borders_only_def by blast
  have be: "exits s c d" if "in_cells s c" "d \<in> set dirs" "mask_at s c AND d \<noteq> 0" for c d
    using gd(5) that unfolding bits_exit_def by blast
  have pass: "passable s c d" if "in_cells s c" "linked s c d" for c d
    using that bo [of c d] be [of c d] by (auto simp: passable_def linked_def)
  from compute_active_reachable [OF ok(1,2,4) pass]
  obtain active where c: "compute_active s = Some (Inr active)"
    and r: "\<forall>c. reachable s c \<longrightarrow> marked s active c" by blast
  have "\<forall>c. in_cells s c \<longrightarrow> reachable s c"
    using grown_spanning_tree [OF g] by (simp add: spanning_tree_def)
  then have "all_active s active" using r by (simp add: all_active_marked)
  then show ?thesis using u c by blast
qed

theorem unshuffled_all_active_witness:
  "unshuffled_grid list_upto example_params [5, 3, 7, 2, 9, 1, 1, 1]
     = Some (Inr (example_grid, [])) \<and>
   (\<exists>active. compute_active example_grid = Some (Inr active) \<and>
      all_active example_grid active)"
  using unshuffled_all_active
          [OF list_upto_in_range, of example_params "[5, 3, 7, 2, 9, 1, 1, 1]"]
        example_unshuffled
  by (simp add: valid_params_def example_params_def)


section \<open>Single-precision rounding\<close>

lemma round_even_of_int [simp]: "round_even (of_int k) = k"
  by (simp add: round_even_def)

lemma round_even_zero [simp]: "round_even 0 = 0"
  by (simp add: round_even_def)

lemma round_even_bounds:
  "of_int (round_even r) \<le> r + 1 / 2" "r - 1 / 2 \<le> of_int (round_even r)"
  unfolding round_even_def Let_def by (auto; linarith)+

lemma round_even_mono:
  assumes "r \<le> r'"
  shows "round_even r \<le> round_even r'"
proof (cases "\<lfloor>r\<rfloor> = \<lfloor>r'\<rfloor>")
  case True
  then show ?thesis using assms unfolding round_even_def Let_def by auto
next
  case False
  then have "\<lfloor>r\<rfloor> < \<lfloor>r'\<rfloor>" using floor_mono [OF assms] by simp
  then have "\<lfloor>r\<rfloor> + 1 \<le> \<lfloor>r'\<rfloor>" by simp
  moreover have "round_even r \<le> \<lfloor>r\<rfloor> + 1" unfolding round_even_def Let_def by auto
  moreover have "\<lfloor>r'\<rfloor> \<le> round_even r'" unfolding round_even_def Let_def by auto
  ultimately show ?thesis by linarith
qed

lemma pow2_pos: "0 < (2::rat) powi e"
  by simp

lemma pow2_add: "(2::rat) powi (a + b) = 2 powi a * 2 powi b"
  by (simp add: power_int_add)

lemma pow2_mono: "a \<le> b \<Longrightarrow> (2::rat) powi a \<le> 2 powi b"
  by (simp add: power_int_increasing)

lemma bitlen_pow2_bounds:
  assumes "0 < a"
  shows "(2::rat) powi (bitlen a - 1) \<le> of_int a" and "of_int a < (2::rat) powi bitlen a"
proof -
  from bitlen_bounds [OF assms]
  have l: "2 ^ nat (bitlen a - 1) \<le> a" and u: "a < 2 ^ nat (bitlen a)" by simp_all
  have b1: "1 \<le> bitlen a"
    using assms bitlen_eq_zero_iff [of a] bitlen_nonneg [of a] by linarith
  have "(of_int (2 ^ nat (bitlen a - 1)) :: rat) \<le> of_int a" using l by (simp only: of_int_le_iff)
  then show "(2::rat) powi (bitlen a - 1) \<le> of_int a"
    using b1 by (simp add: power_int_def)
  have "(of_int a :: rat) < of_int (2 ^ nat (bitlen a))" using u by (simp only: of_int_less_iff)
  then show "of_int a < (2::rat) powi bitlen a"
    using b1 by (simp add: power_int_def)
qed

lemma binade_bounds:
  assumes "0 < x"
  shows "- 126 \<le> binade x" and "x < 2 powi (binade x + 1)"
    and "- 126 < binade x \<Longrightarrow> 2 powi binade x \<le> x"
proof -
  obtain a b where q: "quotient_of x = (a, b)" by (cases "quotient_of x")
  have b: "0 < b" using quotient_of_denom_pos [OF q] .
  have x: "x = of_int a / of_int b" using quotient_of_div [OF q] .
  have a: "0 < a" using assms b x by (simp add: zero_less_divide_iff)
  let ?e = "bitlen a - bitlen b"
  let ?e1 = "if 2 powi ?e \<le> x then ?e else ?e - 1"
  have bd: "binade x = max ?e1 (- 126)" by (simp add: binade_def q Let_def)
  note ba = bitlen_pow2_bounds [OF a]
  note bb = bitlen_pow2_bounds [OF b]
  have bp: "0 < (of_int b :: rat)" using b by simp
  have "x * of_int b = of_int a" using x bp by simp
  then have xb: "x * of_int b = of_int a" .
  have "x * 2 powi (bitlen b - 1) \<le> x * of_int b"
    using mult_left_mono [OF bb(1), of x] assms by simp
  moreover have "x * of_int b < 2 powi bitlen a" using ba(2) xb by simp
  ultimately have "x * 2 powi (bitlen b - 1) < 2 powi bitlen a" by linarith
  moreover have "(2::rat) powi bitlen a = 2 powi (?e + 1) * 2 powi (bitlen b - 1)"
    by (simp add: pow2_add [symmetric])
  ultimately have up: "x < 2 powi (?e + 1)"
    using pow2_pos [of "bitlen b - 1"] by (simp add: mult_less_cancel_right)
  have "2 powi (bitlen a - 1) \<le> x * of_int b" using ba(1) xb by simp
  moreover have "x * of_int b < x * 2 powi bitlen b"
    using mult_strict_left_mono [OF bb(2) assms] .
  ultimately have "2 powi (bitlen a - 1) < x * 2 powi bitlen b" by linarith
  moreover have "(2::rat) powi (bitlen a - 1) = 2 powi (?e - 1) * 2 powi bitlen b"
    by (simp add: pow2_add [symmetric])
  ultimately have lo: "2 powi (?e - 1) < x"
    using pow2_pos [of "bitlen b"] by (simp add: mult_less_cancel_right)
  have e1: "2 powi ?e1 \<le> x" "x < 2 powi (?e1 + 1)"
    using up lo by (auto simp: not_le)
  show "- 126 \<le> binade x" using bd by simp
  have "2 powi (?e1 + 1) \<le> (2::rat) powi (binade x + 1)"
    using bd by (intro pow2_mono) simp
  then show "x < 2 powi (binade x + 1)" using e1(2) by linarith
  show "2 powi binade x \<le> x" if "- 126 < binade x"
  proof -
    have "binade x = ?e1" using bd that by linarith
    then show ?thesis using e1(1) by simp
  qed
qed

lemma binade_mono:
  assumes "0 < x" and "x \<le> y"
  shows "binade x \<le> binade y"
proof (rule ccontr)
  assume "\<not> binade x \<le> binade y"
  then have lt: "binade y + 1 \<le> binade x" by simp
  have y: "0 < y" using assms by simp
  have "- 126 < binade x" using lt binade_bounds(1) [OF y] by linarith
  then have "2 powi binade x \<le> x" using binade_bounds(3) [OF assms(1)] by simp
  moreover have "y < 2 powi (binade y + 1)" using binade_bounds(2) [OF y] .
  moreover have "(2::rat) powi (binade y + 1) \<le> 2 powi binade x" using lt by (rule pow2_mono)
  ultimately show False using assms(2) by linarith
qed

lemma float_round_nonneg:
  assumes "0 \<le> x"
  shows "0 \<le> float_round x"
proof -
  let ?u = "(2::rat) powi (binade \<bar>x\<bar> - 23)"
  have "0 \<le> x / ?u" using assms by simp
  then have "round_even 0 \<le> round_even (x / ?u)" by (rule round_even_mono)
  then have "0 \<le> round_even (x / ?u)" using round_even_of_int [of 0] by simp
  then show ?thesis by (simp add: float_round_def Let_def)
qed

lemma float_round_in_binade:
  assumes "0 < x"
  shows "float_round x \<le> 2 powi (binade x + 1)"
    and "- 126 < binade x \<Longrightarrow> 2 powi binade x \<le> float_round x"
proof -
  let ?u = "(2::rat) powi (binade x - 23)"
  have u: "0 < ?u" by simp
  have fr: "float_round x = of_int (round_even (x / ?u)) * ?u"
    using assms by (simp add: float_round_def Let_def)
  have top: "(2::rat) powi (binade x + 1) = of_int (2 ^ 24) * ?u"
    using pow2_add [of 24 "binade x - 23"] by (simp add: add.commute)
  have "x / ?u \<le> of_int (2 ^ 24)"
    using binade_bounds(2) [OF assms] u unfolding top by (simp add: pos_divide_le_eq)
  then have "round_even (x / ?u) \<le> round_even (of_int (2 ^ 24))" by (rule round_even_mono)
  then have "round_even (x / ?u) \<le> 2 ^ 24" by (simp only: round_even_of_int)
  then have "(of_int (round_even (x / ?u)) :: rat) \<le> of_int (2 ^ 24)"
    by (simp only: of_int_le_iff)
  then show "float_round x \<le> 2 powi (binade x + 1)"
    unfolding fr top using u by (simp only: mult_le_cancel_right_pos)
  show "2 powi binade x \<le> float_round x" if "- 126 < binade x"
  proof -
    have bot: "(2::rat) powi binade x = of_int (2 ^ 23) * ?u"
      using pow2_add [of 23 "binade x - 23"] by simp
    have "of_int (2 ^ 23) \<le> x / ?u"
      using binade_bounds(3) [OF assms that] u unfolding bot by (simp add: pos_le_divide_eq)
    then have "round_even (of_int (2 ^ 23)) \<le> round_even (x / ?u)" by (rule round_even_mono)
    then have "2 ^ 23 \<le> round_even (x / ?u)" by (simp only: round_even_of_int)
    then have "(of_int (2 ^ 23) :: rat) \<le> of_int (round_even (x / ?u))"
      by (simp only: of_int_le_iff)
    then show ?thesis
      unfolding fr bot using u by (simp only: mult_le_cancel_right_pos)
  qed
qed

lemma float_round_mono:
  assumes "0 \<le> x" and "x \<le> y"
  shows "float_round x \<le> float_round y"
proof (cases "x = 0")
  case True
  have "float_round 0 = 0" by (simp add: float_round_def)
  then show ?thesis using True float_round_nonneg [of y] assms by simp
next
  case False
  then have x: "0 < x" and y: "0 < y" using assms by simp_all
  note m = binade_mono [OF x assms(2)]
  show ?thesis
  proof (cases "binade x = binade y")
    case True
    let ?u = "(2::rat) powi (binade x - 23)"
    have "x / ?u \<le> y / ?u" using assms(2) by (simp add: divide_right_mono)
    then have "round_even (x / ?u) \<le> round_even (y / ?u)" by (rule round_even_mono)
    then have "(of_int (round_even (x / ?u)) :: rat) * ?u \<le> of_int (round_even (y / ?u)) * ?u"
      by (simp add: mult_right_mono)
    then show ?thesis using x y True by (simp add: float_round_def Let_def)
  next
    case False
    then have lt: "binade x + 1 \<le> binade y" using m by simp
    then have "- 126 < binade y" using binade_bounds(1) [OF x] by linarith
    then have "2 powi binade y \<le> float_round y" using float_round_in_binade(2) [OF y] by simp
    moreover have "float_round x \<le> 2 powi (binade x + 1)" using float_round_in_binade(1) [OF x] .
    moreover have "(2::rat) powi (binade x + 1) \<le> 2 powi binade y" using lt by (rule pow2_mono)
    ultimately show ?thesis by linarith
  qed
qed

lemma float_round_top: "float_round 16777216 = 16777216"
  by code_simp

lemma float_round_int:
  assumes "0 \<le> n" and "n \<le> 2 ^ 24"
  shows "float_round (of_int n) = of_int n"
proof (cases "n = 0")
  case True
  then show ?thesis by (simp add: float_round_def)
next
  case False
  let ?x = "of_int n :: rat"
  have x: "0 < ?x" using False assms(1) by simp
  let ?e = "binade ?x"
  let ?u = "(2::rat) powi (?e - 23)"
  have fr: "float_round ?x = of_int (round_even (?x / ?u)) * ?u"
    using x by (simp add: float_round_def Let_def)
  have "1 \<le> ?x" using False assms(1) by simp
  have e0: "0 \<le> ?e"
  proof (rule ccontr)
    assume "\<not> 0 \<le> ?e"
    then have "?e + 1 \<le> 0" by simp
    then have "(2::rat) powi (?e + 1) \<le> 2 powi 0" by (rule pow2_mono)
    then show False using binade_bounds(2) [OF x] \<open>1 \<le> ?x\<close> by simp
  qed
  then have lo: "2 powi ?e \<le> ?x" using binade_bounds(3) [OF x] by simp
  have "?x \<le> of_int (2 ^ 24)" using assms(2) by (simp only: of_int_le_iff)
  then have hi: "?x \<le> 16777216" by simp
  have e24: "?e \<le> 24"
  proof (rule ccontr)
    assume "\<not> ?e \<le> 24"
    then have "25 \<le> ?e" by simp
    then have "(2::rat) powi 25 \<le> 2 powi ?e" by (rule pow2_mono)
    then show False using lo hi by simp
  qed
  show ?thesis
  proof (cases "?e = 24")
    case True
    then have "?x = 16777216" using lo hi by simp
    then show ?thesis using float_round_top by simp
  next
    case False
    then have le: "?e \<le> 23" using e24 by simp
    have "1 / ?u = 2 powi (23 - ?e)" by (simp add: power_int_diff)
    also have "\<dots> = of_int (2 ^ nat (23 - ?e))" using le by (simp add: power_int_def)
    finally have inv: "1 / ?u = of_int (2 ^ nat (23 - ?e))" .
    have "?x / ?u = ?x * (1 / ?u)" by simp
    also have "\<dots> = of_int (n * 2 ^ nat (23 - ?e))" unfolding inv by simp
    finally have "?x / ?u = of_int (n * 2 ^ nat (23 - ?e))" .
    then have "of_int (round_even (?x / ?u)) = ?x / ?u"
      by (simp only: round_even_of_int)
    then show ?thesis unfolding fr by simp
  qed
qed

lemma float_round_between:
  assumes "0 \<le> x" and "x \<le> of_int n" and "n \<le> 2 ^ 24"
  shows "\<lfloor>x\<rfloor> \<le> \<lfloor>float_round x\<rfloor>" and "\<lfloor>float_round x\<rfloor> \<le> \<lceil>x\<rceil>"
    and "float_round x \<le> of_int n"
proof -
  have n0: "0 \<le> n" using assms(1,2) by (metis of_int_0_le_iff order_trans)
  have f0: "0 \<le> \<lfloor>x\<rfloor>" using assms(1) by simp
  have "\<lfloor>x\<rfloor> \<le> n" using assms(2) by (simp add: floor_le_iff)
  then have "\<lfloor>x\<rfloor> \<le> 2 ^ 24" using assms(3) by (rule order_trans)
  then have "float_round (of_int \<lfloor>x\<rfloor>) = of_int \<lfloor>x\<rfloor>"
    using f0 by (intro float_round_int)
  moreover have "float_round (of_int \<lfloor>x\<rfloor>) \<le> float_round x"
    by (rule float_round_mono) (use f0 in simp_all)
  ultimately have "of_int \<lfloor>x\<rfloor> \<le> float_round x" by simp
  then show "\<lfloor>x\<rfloor> \<le> \<lfloor>float_round x\<rfloor>" by (simp add: le_floor_iff)
  have c0: "0 \<le> \<lceil>x\<rceil>" using assms(1) by (simp add: ceiling_le_iff less_ceiling_iff)
  have "\<lceil>x\<rceil> \<le> n" using assms(2) by (simp add: ceiling_le_iff)
  then have "\<lceil>x\<rceil> \<le> 2 ^ 24" using assms(3) by (rule order_trans)
  then have "float_round (of_int \<lceil>x\<rceil>) = of_int \<lceil>x\<rceil>"
    using c0 by (intro float_round_int)
  moreover have "float_round x \<le> float_round (of_int \<lceil>x\<rceil>)"
    by (rule float_round_mono) (use assms(1) in simp_all)
  ultimately have "float_round x \<le> of_int \<lceil>x\<rceil>" by simp
  then show "\<lfloor>float_round x\<rfloor> \<le> \<lceil>x\<rceil>" by (simp add: floor_le_iff)
  have "float_round x \<le> float_round (of_int n)"
    using assms(1,2) by (rule float_round_mono)
  then show "float_round x \<le> of_int n"
    using float_round_int [OF n0 assms(3)] by simp
qed

lemma to_int_floor: "0 \<le> q \<Longrightarrow> to_int q = \<lfloor>q\<rfloor>"
  by (simp add: to_int_def)

text \<open>Line 467 for a probability between 0 and 1 and a count that a float holds exactly.\<close>

lemma barrier_count_bounds:
  assumes "0 \<le> barrier_probability params" and "barrier_probability params \<le> 1"
    and "count234 bs \<le> 2 ^ 24"
  shows "barrier_count params bs
           = \<lfloor>float_mul (barrier_probability params) (of_nat (count234 bs))\<rfloor>"
    and "0 \<le> barrier_count params bs" and "barrier_count params bs \<le> int (count234 bs)"
    and "\<lfloor>barrier_probability params * of_nat (count234 bs)\<rfloor> \<le> barrier_count params bs"
    and "barrier_count params bs \<le> \<lceil>barrier_probability params * of_nat (count234 bs)\<rceil>"
proof -
  let ?p = "barrier_probability params" and ?n = "int (count234 bs)"
  let ?x = "?p * of_int ?n"
  have n: "0 \<le> ?n" "?n \<le> 2 ^ 24" using assms(3) by simp_all
  have fi: "float_of_int ?n = of_int ?n"
    unfolding float_of_int_def using n by (rule float_round_int)
  have x0: "0 \<le> ?x" using assms(1) by simp
  have "?x \<le> 1 * of_int ?n" using assms(2) by (intro mult_right_mono) simp_all
  then have xn: "?x \<le> of_int ?n" by simp
  note b = float_round_between [OF x0 xn n(2)]
  have f0: "0 \<le> float_round ?x" using x0 by (rule float_round_nonneg)
  have bc: "barrier_count params bs = \<lfloor>float_round ?x\<rfloor>"
    using f0 by (simp add: barrier_count_def float_mul_def fi to_int_floor)
  show "barrier_count params bs = \<lfloor>float_mul ?p (of_nat (count234 bs))\<rfloor>"
    using bc by (simp add: float_mul_def)
  show "0 \<le> barrier_count params bs" using bc f0 by simp
  show "barrier_count params bs \<le> int (count234 bs)"
    using bc b(3) by (simp add: floor_le_iff)
  show "\<lfloor>?p * of_nat (count234 bs)\<rfloor> \<le> barrier_count params bs" using bc b(1) by simp
  show "barrier_count params bs \<le> \<lceil>?p * of_nat (count234 bs)\<rceil>" using bc b(2) by simp
qed

text \<open>Line 467 never gives less for a higher probability.\<close>

lemma barrier_count_mono:
  assumes "0 \<le> q" and "q \<le> q'"
  shows "barrier_count (params\<lparr>barrier_probability := q\<rparr>) bs
           \<le> barrier_count (params\<lparr>barrier_probability := q'\<rparr>) bs"
proof -
  let ?f = "float_of_int (int (count234 bs))"
  have f: "0 \<le> ?f" unfolding float_of_int_def by (rule float_round_nonneg) simp
  have le: "q * ?f \<le> q' * ?f" using assms(2) f by (rule mult_right_mono)
  have q0: "0 \<le> q * ?f" using assms(1) f by simp
  then have "float_round (q * ?f) \<le> float_round (q' * ?f)" using le by (rule float_round_mono)
  moreover have "0 \<le> float_round (q * ?f)" using q0 by (rule float_round_nonneg)
  ultimately show ?thesis
    by (simp add: barrier_count_def float_mul_def to_int_floor floor_mono)
qed

text \<open>There are at most two candidate edges for every cell.\<close>

lemma candidates_count: "count234 (barrier_candidates s) \<le> 2 * (width s * height s)"
proof -
  let ?bs = "barrier_candidates s"
  let ?all = "(\<lambda>(c, d). (fst c, snd c, d)) ` ({c. in_cells s c} \<times> {R, D})"
  have ok: "distinct ?bs" "\<forall>e\<in>set ?bs. candidate s e"
    using barrier_candidates_ok [of s] by (simp_all add: candidates_ok_def)
  have "set ?bs \<subseteq> ?all"
  proof
    fix e assume "e \<in> set ?bs"
    then have c: "candidate s e" using ok(2) by blast
    obtain x y d where e: "e = (x, y, d)" by (cases e)
    have "in_cells s (x, y)" "d = R \<or> d = D" using c e by (simp_all add: candidate_def)
    then have "((x, y), d) \<in> {c. in_cells s c} \<times> {R, D}" by auto
    then show "e \<in> ?all" unfolding e by force
  qed
  moreover have fin: "finite ({c. in_cells s c} \<times> {R, D})" using finite_cells by simp
  ultimately have "card (set ?bs) \<le> card ?all" by (intro card_mono finite_imageI)
  also have "\<dots> \<le> card ({c. in_cells s c} \<times> {R, D})" using fin by (rule card_image_le)
  also have "\<dots> \<le> 2 * (width s * height s)"
    by (simp add: card_cartesian_product card_cells card_insert_if)
  finally show ?thesis using distinct_card [OF ok(1)] by (simp add: count234_def)
qed

section \<open>Net: what the barrier probability changes\<close>

lemma cells_fit:
  assumes "valid_params params" and "pwidth params * pheight params \<le> 2 ^ 23"
  shows "nat (pwidth params) * nat (pheight params) \<le> 2 ^ 23"
proof -
  have "0 \<le> pwidth params" using assms(1) by (simp add: valid_params_def)
  then have "nat (pwidth params) * nat (pheight params) = nat (pwidth params * pheight params)"
    by (simp add: nat_mult_distrib)
  then show ?thesis using assms(2) by (simp add: nat_le_iff)
qed

text \<open>
  A float holds every count up to \<open>2 ^ 24\<close>, and not every one above: 16777219 becomes
  16777220, and with probability 1 line 467 then gives more than there are candidates.
\<close>

lemma count_rounded_up: "to_int (float_mul 1 (float_of_int 16777219)) = 16777220"
  by code_simp

lemma barrier_count_above:
  assumes "barrier_probability params = 1" and "count234 bs = 16777219"
  shows "int (count234 bs) < barrier_count params bs"
  using count_rounded_up by (simp add: barrier_count_def assms)

text \<open>
  The steps of \<^verbatim>\<open>new_game\<close>: the generator and the shuffle return, and the assertion of
  line 468 decides between the barrier loop and a failure.
\<close>

lemma new_game_run:
  assumes "in_range rnd" and "valid_params params"
  shows "\<exists>s1 rs1 s2 rs2.
           unshuffled_grid rnd params rs = Some (Inr (s1, rs1)) \<and> growing s1 [] \<and>
           barriers s1 = barriers (start_state params) \<and>
           width s1 = nat (pwidth params) \<and> height s1 = nat (pheight params) \<and>
           shuffle rnd s1 rs1 = (s2, rs2) \<and>
           (if 0 \<le> barrier_count params (barrier_candidates s1) \<and>
               barrier_count params (barrier_candidates s1)
                 \<le> int (count234 (barrier_candidates s1))
            then \<exists>s3 bs3 rs3.
                   choose_barriers rnd (nat (barrier_count params (barrier_candidates s1))) s2
                     (barrier_candidates s1) rs2 = Inr (s3, bs3, rs3) \<and>
                   same_tiles s2 s3 \<and> more_barriers s2 s3 \<and>
                   new_game rnd params rs = Some (Inr (barrier_corners s3))
            else new_game rnd params rs = Some (Inl AssertionFailed))"
proof -
  from unshuffled_grid_returns [OF assms(1,2), of rs]
  obtain s1 rs1 where u: "unshuffled_grid rnd params rs = Some (Inr (s1, rs1))"
    and g: "growing s1 []" and b: "barriers s1 = barriers (start_state params)"
    and wh: "width s1 = nat (pwidth params)" "height s1 = nat (pheight params)" by blast
  obtain s2 rs2 where sh: "shuffle rnd s1 rs1 = (s2, rs2)" by (cases "shuffle rnd s1 rs1")
  let ?bs = "barrier_candidates s1"
  let ?n = "barrier_count params ?bs"
  show ?thesis
  proof (cases "0 \<le> ?n \<and> ?n \<le> int (count234 ?bs)")
    case True
    then have "nat ?n \<le> length ?bs" by (auto simp: count234_def)
    from choose_barriers_returns [OF assms(1) this, of s2 rs2]
    obtain s3 bs3 rs3 where c: "choose_barriers rnd (nat ?n) s2 ?bs rs2 = Inr (s3, bs3, rs3)"
      and st: "same_tiles s2 s3" and mb: "more_barriers s2 s3" by blast
    have "new_game rnd params rs = Some (Inr (barrier_corners s3))"
      using u sh True c by (simp add: new_game_def Let_def)
    then show ?thesis using u g b wh sh c st mb True by auto
  next
    case False
    then have "new_game rnd params rs = Some (Inl AssertionFailed)"
      using u sh by (simp add: new_game_def Let_def)
    then show ?thesis using u g b wh sh False by auto
  qed
qed

text \<open>
  The steps of \<^verbatim>\<open>new_game\<close> for a probability between 0 and 1 on a grid of at most
  \<open>2 ^ 23\<close> cells, where the assertion of line 468 holds.
\<close>

lemma new_game_steps:
  assumes "in_range rnd" and "valid_params params"
    and "0 \<le> barrier_probability params" and "barrier_probability params \<le> 1"
    and "pwidth params * pheight params \<le> 2 ^ 23"
  shows "\<exists>s1 rs1 s2 rs2 s3 bs3 rs3.
           unshuffled_grid rnd params rs = Some (Inr (s1, rs1)) \<and> growing s1 [] \<and>
           barriers s1 = barriers (start_state params) \<and>
           shuffle rnd s1 rs1 = (s2, rs2) \<and>
           count234 (barrier_candidates s1) \<le> 2 ^ 24 \<and>
           choose_barriers rnd (nat (barrier_count params (barrier_candidates s1))) s2
             (barrier_candidates s1) rs2 = Inr (s3, bs3, rs3) \<and>
           same_tiles s2 s3 \<and> more_barriers s2 s3 \<and>
           new_game rnd params rs = Some (Inr (barrier_corners s3))"
proof -
  from new_game_run [OF assms(1,2), of rs]
  obtain s1 rs1 s2 rs2 where u: "unshuffled_grid rnd params rs = Some (Inr (s1, rs1))"
    and g: "growing s1 []" and b: "barriers s1 = barriers (start_state params)"
    and wh: "width s1 = nat (pwidth params)" "height s1 = nat (pheight params)"
    and sh: "shuffle rnd s1 rs1 = (s2, rs2)"
    and run: "if 0 \<le> barrier_count params (barrier_candidates s1) \<and>
               barrier_count params (barrier_candidates s1)
                 \<le> int (count234 (barrier_candidates s1))
            then \<exists>s3 bs3 rs3.
                   choose_barriers rnd (nat (barrier_count params (barrier_candidates s1))) s2
                     (barrier_candidates s1) rs2 = Inr (s3, bs3, rs3) \<and>
                   same_tiles s2 s3 \<and> more_barriers s2 s3 \<and>
                   new_game rnd params rs = Some (Inr (barrier_corners s3))
            else new_game rnd params rs = Some (Inl AssertionFailed)"
    by (elim exE conjE)
  have "width s1 * height s1 \<le> 2 ^ 23" using cells_fit [OF assms(2,5)] wh by simp
  then have cnt: "count234 (barrier_candidates s1) \<le> 2 ^ 24"
    using candidates_count [of s1] by simp
  note tb = barrier_count_bounds(2,3) [OF assms(3,4) cnt]
  from run tb obtain s3 bs3 rs3 where
    "choose_barriers rnd (nat (barrier_count params (barrier_candidates s1))) s2
       (barrier_candidates s1) rs2 = Inr (s3, bs3, rs3)"
    "same_tiles s2 s3" "more_barriers s2 s3"
    "new_game rnd params rs = Some (Inr (barrier_corners s3))"
    by auto
  then show ?thesis using u g b sh cnt by blast
qed

text \<open>What a run of \<^verbatim>\<open>new_game\<close> returns, and where a returned state comes from.\<close>

lemma new_game_result:
  assumes "in_range rnd" and "valid_params params"
  shows "\<exists>s1 rs1 s2 rs2 r.
           unshuffled_grid rnd params rs = Some (Inr (s1, rs1)) \<and>
           shuffle rnd s1 rs1 = (s2, rs2) \<and> new_game rnd params rs = Some r \<and>
           (\<forall>s. r = Inr s \<longrightarrow>
              (\<exists>s3 bs3 rs3.
                 choose_barriers rnd (nat (barrier_count params (barrier_candidates s1))) s2
                   (barrier_candidates s1) rs2 = Inr (s3, bs3, rs3) \<and>
                 same_tiles s2 s3 \<and> s = barrier_corners s3))"
proof -
  from new_game_run [OF assms, of rs]
  obtain s1 rs1 s2 rs2 where u: "unshuffled_grid rnd params rs = Some (Inr (s1, rs1))"
    and sh: "shuffle rnd s1 rs1 = (s2, rs2)"
    and run: "if 0 \<le> barrier_count params (barrier_candidates s1) \<and>
               barrier_count params (barrier_candidates s1)
                 \<le> int (count234 (barrier_candidates s1))
            then \<exists>s3 bs3 rs3.
                   choose_barriers rnd (nat (barrier_count params (barrier_candidates s1))) s2
                     (barrier_candidates s1) rs2 = Inr (s3, bs3, rs3) \<and>
                   same_tiles s2 s3 \<and> more_barriers s2 s3 \<and>
                   new_game rnd params rs = Some (Inr (barrier_corners s3))
            else new_game rnd params rs = Some (Inl AssertionFailed)"
    by (elim exE conjE)
  show ?thesis
  proof (cases "0 \<le> barrier_count params (barrier_candidates s1) \<and>
               barrier_count params (barrier_candidates s1)
                 \<le> int (count234 (barrier_candidates s1))")
    case True
    with run obtain s3 bs3 rs3 where
      "choose_barriers rnd (nat (barrier_count params (barrier_candidates s1))) s2
         (barrier_candidates s1) rs2 = Inr (s3, bs3, rs3)"
      "same_tiles s2 s3" "new_game rnd params rs = Some (Inr (barrier_corners s3))"
      by auto
    then show ?thesis using u sh by blast
  next
    case False
    with run have "new_game rnd params rs = Some (Inl AssertionFailed)" by simp
    then show ?thesis using u sh by blast
  qed
qed

text \<open>
  Claim C4. For one random source, one random state and the same width, height and
  wrapping flag, two runs of \<^verbatim>\<open>new_game\<close> that differ only in a barrier probability
  between 0 and 1 both return; whenever both return a state, the two states have the
  same array of tiles; and on a grid of at most \<open>2 ^ 23\<close> cells both return a state.
  (On a larger grid the candidate count need not be a float, and the assertion of
  line 468 can fail.)
\<close>

theorem tiles_independent_of_probability:
  assumes "in_range rnd" and "valid_params params"
    and "0 \<le> q" and "q \<le> 1" and "0 \<le> q'" and "q' \<le> 1"
  shows "\<exists>r r'. new_game rnd (params\<lparr>barrier_probability := q\<rparr>) rs = Some r \<and>
                 new_game rnd (params\<lparr>barrier_probability := q'\<rparr>) rs = Some r' \<and>
                 (\<forall>s s'. r = Inr s \<and> r' = Inr s' \<longrightarrow> tiles s = tiles s') \<and>
                 (pwidth params * pheight params \<le> 2 ^ 23 \<longrightarrow>
                    (\<exists>s s'. r = Inr s \<and> r' = Inr s'))"
proof -
  let ?p = "params\<lparr>barrier_probability := q\<rparr>"
  let ?p' = "params\<lparr>barrier_probability := q'\<rparr>"
  have v: "valid_params ?p" "valid_params ?p'"
    using assms(2) by (simp_all add: valid_params_def)
  from new_game_result [OF assms(1) v(1), of rs]
  obtain s1 rs1 s2 rs2 r where u: "unshuffled_grid rnd ?p rs = Some (Inr (s1, rs1))"
    and sh: "shuffle rnd s1 rs1 = (s2, rs2)" and ng: "new_game rnd ?p rs = Some r"
    and res: "\<And>s. r = Inr s \<Longrightarrow> \<exists>s3. same_tiles s2 s3 \<and> s = barrier_corners s3"
    by blast
  from new_game_result [OF assms(1) v(2), of rs]
  obtain t1 rt1 t2 rt2 r' where u': "unshuffled_grid rnd ?p' rs = Some (Inr (t1, rt1))"
    and sh': "shuffle rnd t1 rt1 = (t2, rt2)" and ng': "new_game rnd ?p' rs = Some r'"
    and res': "\<And>s. r' = Inr s \<Longrightarrow> \<exists>s3. same_tiles t2 s3 \<and> s = barrier_corners s3"
    by blast
  have "s1 = t1 \<and> rs1 = rt1" using u u' by (simp add: unshuffled_grid_probability)
  then have same2: "s2 = t2" using sh sh' by simp
  have rel: "tiles s = tiles s'" if "r = Inr s" and "r' = Inr s'" for s s'
  proof -
    from res [OF that(1)] obtain s3 where st: "same_tiles s2 s3" and s: "s = barrier_corners s3"
      by blast
    from res' [OF that(2)] obtain t3 where st': "same_tiles t2 t3" and s': "s' = barrier_corners t3"
      by blast
    show ?thesis
      unfolding s s'
      using st st' same2 same_tiles_corners [of s3] same_tiles_corners [of t3]
      by (simp add: same_tiles_def)
  qed
  have ret: "\<exists>s s'. r = Inr s \<and> r' = Inr s'" if "pwidth params * pheight params \<le> 2 ^ 23"
  proof -
    have "\<exists>s. new_game rnd ?p rs = Some (Inr s)"
      using new_game_steps [OF assms(1) v(1), of rs] assms(3,4) that by auto
    moreover have "\<exists>s. new_game rnd ?p' rs = Some (Inr s)"
      using new_game_steps [OF assms(1) v(2), of rs] assms(5,6) that by auto
    ultimately show ?thesis using ng ng' by auto
  qed
  show ?thesis using ng ng' rel ret by blast
qed

theorem tiles_independent_of_probability_witness:
  "\<exists>s s'.
     new_game list_upto (example_params\<lparr>barrier_probability := 1 / 2\<rparr>)
       [5, 3, 7, 2, 9, 1, 1, 1, 0, 1, 2, 3, 0, 1, 2, 3, 0, 2, 5, 1] = Some (Inr s) \<and>
     new_game list_upto (example_params\<lparr>barrier_probability := 1\<rparr>)
       [5, 3, 7, 2, 9, 1, 1, 1, 0, 1, 2, 3, 0, 1, 2, 3, 0, 2, 5, 1] = Some (Inr s') \<and>
     tiles s = tiles s'"
  using tiles_independent_of_probability
          [OF list_upto_in_range, of example_params "1 / 2" 1
             "[5, 3, 7, 2, 9, 1, 1, 1, 0, 1, 2, 3, 0, 1, 2, 3, 0, 2, 5, 1]"]
  by (auto simp: valid_params_def example_params_def)

text \<open>
  Claim C3. For one random source, one random state and the same width, height and
  wrapping flag, two runs of \<^verbatim>\<open>new_game\<close> with barrier probabilities \<open>q < q'\<close> between 0
  and 1 both return; whenever both return a state, the state of the higher probability
  has every barrier edge of the other; and on a grid of at most \<open>2 ^ 23\<close> cells both
  return a state. (On a larger grid the candidate count need not be a float, and the
  assertion of line 468 can fail.)
\<close>

theorem barriers_superset:
  assumes "in_range rnd" and "valid_params params"
    and "0 \<le> q" and "q < q'" and "q' \<le> 1"
  shows "\<exists>r r'. new_game rnd (params\<lparr>barrier_probability := q\<rparr>) rs = Some r \<and>
                 new_game rnd (params\<lparr>barrier_probability := q'\<rparr>) rs = Some r' \<and>
                 (\<forall>s s'. r = Inr s \<and> r' = Inr s' \<longrightarrow> barrier_edges s \<subseteq> barrier_edges s') \<and>
                 (pwidth params * pheight params \<le> 2 ^ 23 \<longrightarrow>
                    (\<exists>s s'. r = Inr s \<and> r' = Inr s'))"
proof -
  let ?p = "params\<lparr>barrier_probability := q\<rparr>"
  let ?p' = "params\<lparr>barrier_probability := q'\<rparr>"
  have v: "valid_params ?p" "valid_params ?p'"
    using assms(2) by (simp_all add: valid_params_def)
  have q: "q \<le> 1" "0 \<le> q'" "q \<le> q'" using assms(3,4,5) by simp_all
  from new_game_result [OF assms(1) v(1), of rs]
  obtain s1 rs1 s2 rs2 r where u: "unshuffled_grid rnd ?p rs = Some (Inr (s1, rs1))"
    and sh: "shuffle rnd s1 rs1 = (s2, rs2)" and ng: "new_game rnd ?p rs = Some r"
    and res: "\<And>s. r = Inr s \<Longrightarrow> \<exists>s3 bs3 rs3.
          choose_barriers rnd (nat (barrier_count ?p (barrier_candidates s1))) s2
            (barrier_candidates s1) rs2 = Inr (s3, bs3, rs3) \<and> s = barrier_corners s3"
    by blast
  from new_game_result [OF assms(1) v(2), of rs]
  obtain t1 rt1 t2 rt2 r' where u': "unshuffled_grid rnd ?p' rs = Some (Inr (t1, rt1))"
    and sh': "shuffle rnd t1 rt1 = (t2, rt2)" and ng': "new_game rnd ?p' rs = Some r'"
    and res': "\<And>s. r' = Inr s \<Longrightarrow> \<exists>s3 bs3 rs3.
          choose_barriers rnd (nat (barrier_count ?p' (barrier_candidates t1))) t2
            (barrier_candidates t1) rt2 = Inr (s3, bs3, rs3) \<and> s = barrier_corners s3"
    by blast
  have same1: "s1 = t1" "rs1 = rt1" using u u' by (simp_all add: unshuffled_grid_probability)
  then have same2: "s2 = t2" "rs2 = rt2" using sh sh' by simp_all
  let ?bs = "barrier_candidates s1"
  let ?n = "nat (barrier_count ?p ?bs)" and ?n' = "nat (barrier_count ?p' ?bs)"
  have "barrier_count ?p ?bs \<le> barrier_count ?p' ?bs"
    using barrier_count_mono [OF assms(3) q(3)] .
  then have split: "?n' = ?n + (?n' - ?n)" by simp
  have rel: "barrier_edges s \<subseteq> barrier_edges s'" if "r = Inr s" and "r' = Inr s'" for s s'
  proof -
    from res [OF that(1)] obtain s3 bs3 rs3 where
      c: "choose_barriers rnd ?n s2 ?bs rs2 = Inr (s3, bs3, rs3)" and s: "s = barrier_corners s3"
      by blast
    from res' [OF that(2)] obtain t3 bt3 rt3 where
      c': "choose_barriers rnd ?n' s2 ?bs rs2 = Inr (t3, bt3, rt3)" and s': "s' = barrier_corners t3"
      using same1 same2 by auto
    have "choose_barriers rnd ?n' s2 ?bs rs2 = choose_barriers rnd (?n' - ?n) s3 bs3 rs3"
      using choose_barriers_add [of rnd ?n "?n' - ?n" s2 ?bs rs2] c split by simp
    then have "choose_barriers rnd (?n' - ?n) s3 bs3 rs3 = Inr (t3, bt3, rt3)"
      using c' by simp
    then have "more_barriers s3 t3" by (rule choose_barriers_more)
    then have "barrier_edges s3 \<subseteq> barrier_edges t3" by (rule more_barriers_edges)
    then show ?thesis
      unfolding s s' using same_edges_edges [OF same_edges_corners] by simp
  qed
  have ret: "\<exists>s s'. r = Inr s \<and> r' = Inr s'" if "pwidth params * pheight params \<le> 2 ^ 23"
  proof -
    have "\<exists>s. new_game rnd ?p rs = Some (Inr s)"
      using new_game_steps [OF assms(1) v(1), of rs] assms(3) q(1) that by auto
    moreover have "\<exists>s. new_game rnd ?p' rs = Some (Inr s)"
      using new_game_steps [OF assms(1) v(2), of rs] assms(5) q(2) that by auto
    ultimately show ?thesis using ng ng' by auto
  qed
  show ?thesis using ng ng' rel ret by blast
qed

theorem barriers_superset_witness:
  "\<exists>s s'.
     new_game list_upto (example_params\<lparr>barrier_probability := 1 / 2\<rparr>)
       [5, 3, 7, 2, 9, 1, 1, 1, 0, 1, 2, 3, 0, 1, 2, 3, 0, 2, 5, 1] = Some (Inr s) \<and>
     new_game list_upto (example_params\<lparr>barrier_probability := 1\<rparr>)
       [5, 3, 7, 2, 9, 1, 1, 1, 0, 1, 2, 3, 0, 1, 2, 3, 0, 2, 5, 1] = Some (Inr s') \<and>
     barrier_edges s \<subseteq> barrier_edges s'"
  using barriers_superset
          [OF list_upto_in_range, of example_params "1 / 2" 1
             "[5, 3, 7, 2, 9, 1, 1, 1, 0, 1, 2, 3, 0, 1, 2, 3, 0, 2, 5, 1]"]
  by (auto simp: valid_params_def example_params_def)

section \<open>Net: the number of barriers\<close>

text \<open>
  The run of \<^verbatim>\<open>new_game\<close> at the float nearest to 0.7: the grid has 10 candidate edges,
  the float product is 7 and seven barriers are placed, while the exact product lies
  below 7.
\<close>

lemma example_game_run:
  "unshuffled_grid list_upto float_params example_draws
     = Some (Inr (example_grid, drop 8 example_draws)) \<and>
   new_game list_upto float_params example_draws = Some (Inr example_game) \<and>
   count234 (barrier_candidates example_grid) = 10 \<and>
   length (placed_barriers example_grid example_game) = 7 \<and>
   float_round (7 / 10) = barrier_probability float_params \<and>
   \<lfloor>barrier_probability float_params * 10\<rfloor> = 6 \<and>
   \<lceil>barrier_probability float_params * 10\<rceil> = 7"
  by code_simp

text \<open>
  Claim C5, as amended. For a barrier probability between 0 and 1 and a grid of at most
  \<open>2 ^ 23\<close> cells, \<^verbatim>\<open>new_game\<close> returns, and the number of candidate edges it has made
  barriers is the product of line 467 as C computes it: the probability times the
  number of candidates, rounded to the nearest float and then truncated by the
  conversion to \<^verbatim>\<open>int\<close>. This number is not above the number of candidates, and it is
  the exact product rounded down or rounded up.
\<close>

theorem barriers_placed:
  assumes "in_range rnd" and "valid_params params"
    and "0 \<le> barrier_probability params" and "barrier_probability params \<le> 1"
    and "pwidth params * pheight params \<le> 2 ^ 23"
  shows "\<exists>s1 rs1 s.
           unshuffled_grid rnd params rs = Some (Inr (s1, rs1)) \<and>
           new_game rnd params rs = Some (Inr s) \<and>
           int (length (placed_barriers s1 s))
             = \<lfloor>float_mul (barrier_probability params)
                 (of_nat (count234 (barrier_candidates s1)))\<rfloor> \<and>
           length (placed_barriers s1 s) \<le> count234 (barrier_candidates s1) \<and>
           \<lfloor>barrier_probability params * of_nat (count234 (barrier_candidates s1))\<rfloor>
             \<le> int (length (placed_barriers s1 s)) \<and>
           int (length (placed_barriers s1 s))
             \<le> \<lceil>barrier_probability params * of_nat (count234 (barrier_candidates s1))\<rceil>"
proof -
  from new_game_steps [OF assms, of rs]
  obtain s1 rs1 s2 rs2 s3 bs3 rs3 where u: "unshuffled_grid rnd params rs = Some (Inr (s1, rs1))"
    and g: "growing s1 []" and b1: "barriers s1 = barriers (start_state params)"
    and sh: "shuffle rnd s1 rs1 = (s2, rs2)"
    and cnt: "count234 (barrier_candidates s1) \<le> 2 ^ 24"
    and c: "choose_barriers rnd (nat (barrier_count params (barrier_candidates s1))) s2
              (barrier_candidates s1) rs2 = Inr (s3, bs3, rs3)"
    and ng: "new_game rnd params rs = Some (Inr (barrier_corners s3))"
    by blast
  let ?all = "barrier_candidates s1"
  let ?q = "barrier_probability params * of_nat (count234 ?all)"
  let ?f = "float_mul (barrier_probability params) (of_nat (count234 ?all))"
  let ?n = "nat (barrier_count params ?all)"
  let ?s0 = "start_state params"
  note tb = barrier_count_bounds [OF assms(3,4) cnt]
  have n: "int ?n = \<lfloor>?f\<rfloor>" "?n \<le> length ?all"
    using tb(1,2,3) by (simp_all add: count234_def)
  from unshuffled_grid_returns [OF assms(1,2), of rs] u
  have dims1: "width s1 = width ?s0" "height s1 = height ?s0" "wrapping s1 = wrapping ?s0"
    by (auto simp: start_state_fields)
  note k = shuffle_keeps [OF sh]
  have dims2: "width s2 = width ?s0" "height s2 = height ?s0" "wrapping s2 = wrapping ?s0"
    "barriers s2 = barriers ?s0"
    using k dims1 b1 by simp_all
  note bo = start_borders_only [OF assms(2)]
  have wh: "0 < width s2" "0 < height s2"
    using dims2 assms(2) by (simp_all add: start_state_fields valid_params_def)
  have len: "length (barriers s2) = width s2 * height s2"
    using bo dims2 by (simp add: borders_only_def)
  note ok = barrier_candidates_ok [of s1]
  have dist: "distinct ?all" using ok by (simp add: candidates_ok_def)
  have cand1: "\<forall>e\<in>set ?all. candidate s1 e" using ok by (simp add: candidates_ok_def)
  have "candidate s2 e = candidate s1 e" for e
    by (cases e) (simp add: candidate_def in_cells_def exits_def dims1 dims2(1,2,3))
  then have cand: "\<forall>e\<in>set ?all. candidate s2 e" using cand1 by simp
  from choose_barriers_marks [OF assms(1) wh len n(2) dist cand, of rs2]
  obtain s' bs' rs' where r: "choose_barriers rnd ?n s2 ?all rs2 = Inr (s', bs', rs')"
    and d': "distinct bs'" and sub': "set bs' \<subseteq> set ?all"
    and l': "length bs' + ?n = length ?all"
    and marks': "\<forall>x y d. in_cells s2 (x, y) \<and> (d = R \<or> d = D) \<longrightarrow>
          (barrier_at s' (x, y) AND d \<noteq> 0 \<longleftrightarrow>
             barrier_at s2 (x, y) AND d \<noteq> 0 \<or> ((x, y, d) \<in> set ?all \<and> (x, y, d) \<notin> set bs'))"
    by (elim exE conjE)
  have eq: "s' = s3" "bs' = bs3" using r c by simp_all
  have d3: "distinct bs3" and sub: "set bs3 \<subseteq> set ?all" and l3: "length bs3 + ?n = length ?all"
    using d' sub' l' eq by simp_all
  have marks: "barrier_at s3 (x, y) AND d \<noteq> 0 \<longleftrightarrow>
             barrier_at s2 (x, y) AND d \<noteq> 0 \<or> ((x, y, d) \<in> set ?all \<and> (x, y, d) \<notin> set bs3)"
    if "in_cells s2 (x, y)" "d = R \<or> d = D" for x y d
  proof -
    have "in_cells s2 (x, y) \<and> (d = R \<or> d = D)" using that by simp
    then show ?thesis by (rule marks' [unfolded eq, rule_format])
  qed
  have free: "barrier_at s2 (x, y) AND d = 0" if "(x, y, d) \<in> set ?all" for x y d
  proof -
    have "candidate s2 (x, y, d)" using cand that by blast
    then have c2: "in_cells s2 (x, y)" "d = R \<or> d = D" "exits s2 (x, y) d"
      by (simp_all add: candidate_def)
    have cd: "in_cells ?s0 (x, y)" "d \<in> set dirs" "exits ?s0 (x, y) d"
    proof -
      show "in_cells ?s0 (x, y)" using c2(1) by (simp add: in_cells_def dims2(1,2))
      show "d \<in> set dirs" using c2(2) by (auto simp: dirs_are)
      show "exits ?s0 (x, y) d" using c2(3) by (simp add: exits_def dims2(1,2,3))
    qed
    have "barrier_at s2 (x, y) = barrier_at ?s0 (x, y)"
      using dims2 by (simp add: barrier_at_def barrier_def index_def)
    moreover have "barrier_at ?s0 (x, y) AND d \<noteq> 0 \<longrightarrow> \<not> exits ?s0 (x, y) d"
      using bo cd(1,2) unfolding borders_only_def by blast
    ultimately show ?thesis using cd(3) by auto
  qed
  have se: "same_edges s3 (barrier_corners s3)" by (rule same_edges_corners)
  have "(case e of (x, y, d) \<Rightarrow> barrier (barrier_corners s3) x y AND d \<noteq> 0) \<longleftrightarrow> e \<notin> set bs3"
    if e: "e \<in> set ?all" for e
  proof -
    obtain x y d where xyd: "e = (x, y, d)" by (cases e)
    have "candidate s2 (x, y, d)" using cand e xyd by blast
    then have cd: "in_cells s2 (x, y)" "d = R \<or> d = D"
      by (simp_all add: candidate_def)
    then have dd: "d \<in> set dirs" by (auto simp: dirs_are)
    have "barrier (barrier_corners s3) x y AND d \<noteq> 0 \<longleftrightarrow> barrier s3 x y AND d \<noteq> 0"
      using se dd by (simp add: same_edges_def barrier_def index_def)
    also have "\<dots> \<longleftrightarrow> barrier_at s3 (x, y) AND d \<noteq> 0" by (simp add: barrier_at_def)
    also have "\<dots> \<longleftrightarrow> (x, y, d) \<notin> set bs3"
      using marks [OF cd] free [of x y d] e xyd by simp
    finally show ?thesis using xyd by simp
  qed
  then have "placed_barriers s1 (barrier_corners s3) = filter (\<lambda>e. e \<notin> set bs3) ?all"
    unfolding placed_barriers_def by (intro filter_cong) simp_all
  then have "length (placed_barriers s1 (barrier_corners s3)) + length bs3 = length ?all"
    using length_not_removed [OF dist d3 sub] by simp
  then have pl: "length (placed_barriers s1 (barrier_corners s3)) = ?n" using l3 by simp
  then have "int (length (placed_barriers s1 (barrier_corners s3))) = \<lfloor>?f\<rfloor>"
    using n(1) by simp
  moreover have "length (placed_barriers s1 (barrier_corners s3)) \<le> count234 ?all"
    using pl n(2) by (simp add: count234_def)
  moreover have "\<lfloor>?q\<rfloor> \<le> int (length (placed_barriers s1 (barrier_corners s3)))"
    using pl tb(2,4) by simp
  moreover have "int (length (placed_barriers s1 (barrier_corners s3))) \<le> \<lceil>?q\<rceil>"
    using pl tb(2,5) by simp
  ultimately show ?thesis using u ng by blast
qed

theorem barriers_placed_witness:
  "unshuffled_grid list_upto float_params example_draws
     = Some (Inr (example_grid, drop 8 example_draws)) \<and>
   new_game list_upto float_params example_draws = Some (Inr example_game) \<and>
   count234 (barrier_candidates example_grid) = 10 \<and>
   length (placed_barriers example_grid example_game) = 7 \<and>
   \<lfloor>float_mul (barrier_probability float_params) 10\<rfloor> = 7 \<and>
   \<lfloor>barrier_probability float_params * 10\<rfloor> = 6"
  using barriers_placed [OF list_upto_in_range, of float_params example_draws]
        example_game_run
  by (auto simp: valid_params_def float_params_def example_params_def)

text \<open>
  The claim as stated has \<open>round\<close> for the count. In the 2 x 2 game with probability
  3/4 there is one candidate edge; the float product is 3/4 itself, the code places no
  barrier, and 3/4 rounds to 1.
\<close>

theorem barriers_not_rounded:
  "unshuffled_grid list_upto small_params [0, 1, 0] = Some (Inr (small_grid, [])) \<and>
   new_game list_upto small_params [0, 1, 0] = Some (Inr small_game) \<and>
   count234 (barrier_candidates small_grid) = 1 \<and>
   length (placed_barriers small_grid small_game) = 0 \<and>
   float_mul (barrier_probability small_params) (float_of_int 1) = 3 / 4 \<and>
   round (barrier_probability small_params
            * of_nat (count234 (barrier_candidates small_grid))) = 1"
  by code_simp

section \<open>Net: the solver on a spanning tree\<close>

text \<open>
  On a spanning tree whose barrier array holds border bits only, the connectivity
  solver marks every cell: the links of the tree are links on the board.
\<close>

lemma spanning_tree_all_active:
  assumes "spanning_tree s" and "0 < width s" and "0 < height s"
    and "in_cells s (centre s)" and "borders_only s"
  shows "\<exists>active. compute_active s = Some (Inr active) \<and> all_active s active"
proof -
  have be: "exits s c d" if "in_cells s c" "d \<in> set dirs" "mask_at s c AND d \<noteq> 0" for c d
    using assms(1) that unfolding spanning_tree_def bits_exit_def by blast
  have bo: "\<not> exits s c d" if "in_cells s c" "d \<in> set dirs" "barrier_at s c AND d \<noteq> 0"
    for c d
    using assms(5) that unfolding borders_only_def by blast
  have pass: "passable s c d" if "in_cells s c" "linked s c d" for c d
    using that bo [of c d] be [of c d] by (auto simp: passable_def linked_def)
  from compute_active_reachable [OF assms(2,3,4) pass]
  obtain active where c: "compute_active s = Some (Inr active)"
    and r: "\<forall>c. reachable s c \<longrightarrow> marked s active c" by blast
  have "\<forall>c. in_cells s c \<longrightarrow> reachable s c"
    using assms(1) by (simp add: spanning_tree_def)
  then have "all_active s active" using r by (simp add: all_active_marked)
  then show ?thesis using c by blast
qed


end
